theory Spec2Isabelle
  imports Main
begin

section \<open>Strings and character classes\<close>

text \<open>
  The guard is a JavaScript module. Its strings are modelled as HOL strings: a character
  is read as the code unit with the same number, U+0000 to U+00FF. The character classes
  below are the regular-expression classes of the source on that range.
\<close>

definition code_unit :: "char \<Rightarrow> nat" where
  "code_unit c = of_char c"

text \<open>\<^verbatim>\<open>[A-Z]\<close>\<close>
definition is_upper :: "char \<Rightarrow> bool" where
  "is_upper c = (65 \<le> code_unit c \<and> code_unit c \<le> 90)"

text \<open>\<^verbatim>\<open>[a-z]\<close>\<close>
definition is_lower :: "char \<Rightarrow> bool" where
  "is_lower c = (97 \<le> code_unit c \<and> code_unit c \<le> 122)"

text \<open>\<^verbatim>\<open>\d\<close>, that is \<^verbatim>\<open>[0-9]\<close>\<close>
definition is_digit :: "char \<Rightarrow> bool" where
  "is_digit c = (48 \<le> code_unit c \<and> code_unit c \<le> 57)"

text \<open>\<^verbatim>\<open>[a-z0-9]\<close>\<close>
definition is_lower_or_digit :: "char \<Rightarrow> bool" where
  "is_lower_or_digit c = (is_lower c \<or> is_digit c)"

text \<open>
  \<^verbatim>\<open>\s\<close>: tab, line feed, vertical tab, form feed, carriage return, space and the
  no-break space U+00A0.
\<close>
definition is_white_space :: "char \<Rightarrow> bool" where
  "is_white_space c = (code_unit c \<in> {9, 10, 11, 12, 13, 32, 160})"

text \<open>\<^verbatim>\<open>.\<close> matches every character but a line terminator (line feed, carriage return).\<close>
definition is_dot_char :: "char \<Rightarrow> bool" where
  "is_dot_char c = (code_unit c \<noteq> 10 \<and> code_unit c \<noteq> 13)"

text \<open>
  \<^verbatim>\<open>String.prototype.toLowerCase\<close>: A to Z, and the Latin-1 capitals U+00C0 to U+00DE
  without the multiplication sign U+00D7, move up by 32; every other character stays.
\<close>
definition lower_char :: "char \<Rightarrow> char" where
  "lower_char c =
     (if is_upper c \<or> (192 \<le> code_unit c \<and> code_unit c \<le> 222 \<and> code_unit c \<noteq> 215)
      then char_of (code_unit c + 32) else c)"

definition toLowerCase :: "string \<Rightarrow> string" where
  "toLowerCase s = map lower_char s"

text \<open>
  \<^verbatim>\<open>after_prefix p s\<close> is the rest of \<open>s\<close> behind the literal \<open>p\<close> when \<open>s\<close> starts with it:
  a regular expression anchored with \<^verbatim>\<open>^\<close> that begins with literal text.
\<close>
fun after_prefix :: "string \<Rightarrow> string \<Rightarrow> string option" where
  "after_prefix [] s = Some s"
| "after_prefix (p # ps) [] = None"
| "after_prefix (p # ps) (c # cs) = (if p = c then after_prefix ps cs else None)"

section \<open>The classifier\<close>

text \<open>
  \<^verbatim>\<open>path.basename\<close> is Node's library function, not code of the plugin. It is modelled
  after the POSIX variant: scanning from the end, the trailing slashes are skipped and the
  characters up to the next slash are the result.
\<close>
definition basename :: "string \<Rightarrow> string" where
  "basename p =
     rev (takeWhile (\<lambda>c. c \<noteq> CHR ''/'') (dropWhile (\<lambda>c. c = CHR ''/'') (rev p)))"

text \<open>The set \<^verbatim>\<open>BANNED\<close>.\<close>
definition BANNED :: "string set" where
  "BANNED =
     {''enhanced'', ''enhance'',
      ''simple'', ''simplified'',
      ''refactored'', ''refactor'',
      ''optimized'', ''optimize'',
      ''alternate'', ''alternative'', ''alt'',
      ''new'', ''final'', ''updated'', ''rewrite'',
      ''copy'', ''backup'', ''bak'',
      ''temp'', ''tmp'',
      ''legacy'', ''old''}"

text \<open>\<^verbatim>\<open>/^v\d+$/.test(t)\<close>\<close>
definition isVersionToken :: "string \<Rightarrow> bool" where
  "isVersionToken t =
     (case t of [] \<Rightarrow> False | c # ds \<Rightarrow> c = CHR ''v'' \<and> ds \<noteq> [] \<and> list_all is_digit ds)"

text \<open>
  \<^verbatim>\<open>basename.replace(/\.[^.]+$/, "")\<close>: the first position, from the left, where a dot
  is followed by one or more characters, none of them a dot, up to the end of the string;
  the string is cut there.
\<close>
fun strip_ext :: "string \<Rightarrow> string" where
  "strip_ext [] = []"
| "strip_ext (c # cs) =
     (if c = CHR ''.'' \<and> cs \<noteq> [] \<and> list_all (\<lambda>d. d \<noteq> CHR ''.'') cs then []
      else c # strip_ext cs)"

text \<open>
  \<^verbatim>\<open>stem.replace(/([a-z0-9])([A-Z])/g, "$1_$2")\<close>: the matches are found from left to
  right, each consumes its two characters, and the search goes on behind it.
\<close>
fun camel_split :: "string \<Rightarrow> string" where
  "camel_split (a # b # cs) =
     (if is_lower_or_digit a \<and> is_upper b then a # CHR ''_'' # b # camel_split cs
      else a # camel_split (b # cs))"
| "camel_split cs = cs"

text \<open>
  \<^verbatim>\<open>snake.split(/[^a-z0-9]+/)\<close>: every maximal run of separator characters ends the
  current piece, so a string that starts or ends with a separator has an empty first or last
  piece, and the empty string splits into one empty piece.
\<close>
function split_non_alnum :: "string \<Rightarrow> string list" where
  "split_non_alnum [] = [[]]"
| "split_non_alnum (c # cs) =
     (if is_lower_or_digit c
      then (case split_non_alnum cs of p # ps \<Rightarrow> (c # p) # ps | [] \<Rightarrow> [[c]])
      else [] # split_non_alnum (dropWhile (\<lambda>d. \<not> is_lower_or_digit d) cs))"
  by pat_completeness auto
termination
  by (relation "measure length") (auto simp: length_dropWhile_le le_imp_less_Suc)

text \<open>\<^verbatim>\<open>tokenize\<close>; \<^verbatim>\<open>.filter(Boolean)\<close> drops the empty pieces.\<close>
definition tokenize :: "string \<Rightarrow> string list" where
  "tokenize b =
     (let stem = strip_ext b;
          snake = toLowerCase (camel_split stem)
      in filter (\<lambda>t. t \<noteq> []) (split_non_alnum snake))"

definition shouldBlockPath :: "string \<Rightarrow> bool" where
  "shouldBlockPath filePath =
     (let base = basename filePath;
          tokens = tokenize base
      in list_ex (\<lambda>t. t \<in> BANNED \<or> isVersionToken t) tokens)"

section \<open>The rejection\<close>

text \<open>
  The notification sink \<^verbatim>\<open>client.tui.showToast\<close> belongs to the host. The awaited call
  either completes or faults (it throws, its promise is rejected, or the API is absent);
  the sink is a parameter of the model that maps the message to one of the two. A call
  whose promise is never settled is not modelled.
\<close>
datatype toast_result = Shown | Faulted

type_synonym sink = "string \<Rightarrow> toast_result"

text \<open>What the hook does to its caller: it returns, or it throws an \<^verbatim>\<open>Error\<close> with a message.\<close>
datatype outcome = Returned | Raised string

text \<open>
  The state threaded through the hook: the messages handed to the sink so far, oldest
  first.
\<close>
type_synonym notifications = "string list"

text \<open>
  Four characters of the message text lie above U+00FF; each stands in the model as the
  bytes of its UTF-8 encoding: the cross mark U+274C, the dash U+2014 and the quotation
  marks U+201C and U+201D.
\<close>
definition cross_mark :: string where
  "cross_mark = [CHR 0xE2, CHR 0x9D, CHR 0x8C]"

definition em_dash :: string where
  "em_dash = [CHR 0xE2, CHR 0x80, CHR 0x94]"

definition left_quote :: string where
  "left_quote = [CHR 0xE2, CHR 0x80, CHR 0x9C]"

definition right_quote :: string where
  "right_quote = [CHR 0xE2, CHR 0x80, CHR 0x9D]"

text \<open>The template \<^verbatim>\<open>msg\<close> of \<^verbatim>\<open>reject\<close>.\<close>
definition reject_msg :: "string \<Rightarrow> string \<Rightarrow> string" where
  "reject_msg filePath via =
     cross_mark @ '' Rejected '' @ via @ '' for '' @ [CHR 0x22] @ filePath @ [CHR 0x22] @ ''. '' @
     ''This project enforces a single source of truth'' @ em_dash @ ''update the existing file '' @
     ''instead of creating a variant (e.g., '' @ left_quote @ ''enhanced'' @ right_quote @ '', '' @
     left_quote @ ''simple'' @ right_quote @ '', '' @ left_quote @ ''v2'' @ right_quote @ ''). '' @
     ''Please produce an in-place edit or a patch that updates the original.''"

text \<open>
  \<^verbatim>\<open>reject\<close>: the message goes to the sink inside \<^verbatim>\<open>try\<close>; the empty \<^verbatim>\<open>catch\<close> drops a
  fault; the \<^verbatim>\<open>throw\<close> behind it runs on both paths.
\<close>
definition reject :: "sink \<Rightarrow> string \<Rightarrow> string \<Rightarrow> notifications \<Rightarrow> outcome \<times> notifications" where
  "reject client filePath via log =
     (let msg = reject_msg filePath via
      in case client msg of
           Shown \<Rightarrow> (Raised msg, log @ [msg])
         | Faulted \<Rightarrow> (Raised msg, log @ [msg]))"

section \<open>JavaScript values\<close>

text \<open>
  The values a hook argument can hold. An object is the list of its properties; numbers
  are never inspected, so whole numbers stand for them.
\<close>
datatype jsval =
    Undefined
  | Null
  | Bool bool
  | Num int
  | Str string
  | Obj "(string \<times> jsval) list"

text \<open>\<^verbatim>\<open>typeof v === "string"\<close>\<close>
definition is_string :: "jsval \<Rightarrow> bool" where
  "is_string v = (case v of Str s \<Rightarrow> True | _ \<Rightarrow> False)"

section \<open>The diff scanner\<close>

text \<open>\<^verbatim>\<open>patchText.split("\n")\<close>\<close>
fun split_lines :: "string \<Rightarrow> string list" where
  "split_lines [] = [[]]"
| "split_lines (c # cs) =
     (if c = CHR 0x0A then [] # split_lines cs
      else (case split_lines cs of l # ls \<Rightarrow> (c # l) # ls | [] \<Rightarrow> [[c]]))"

text \<open>
  \<^verbatim>\<open>lines[k]\<close>: an index past the end reads \<^verbatim>\<open>undefined\<close>, which a regular expression
  converts to the string "undefined" before matching.
\<close>
definition line_at :: "string list \<Rightarrow> nat \<Rightarrow> string" where
  "line_at lines k = (if k < length lines then lines ! k else ''undefined'')"

text \<open>
  The tail \<^verbatim>\<open>.+ b\/(.+)$\<close> of the header pattern, on a string without line terminators:
  one or more characters, the literal " b/", one or more characters.
\<close>
fun has_b_side :: "string \<Rightarrow> bool" where
  "has_b_side [] = False"
| "has_b_side (c # cs) =
     (case after_prefix '' b/'' cs of
        Some (y # ys) \<Rightarrow> True
      | _ \<Rightarrow> has_b_side cs)"

text \<open>\<^verbatim>\<open>/^diff --git a\/.+ b\/(.+)$/.test(line)\<close>\<close>
definition is_diff_header :: "string \<Rightarrow> bool" where
  "is_diff_header line =
     (case after_prefix ''diff --git a/'' line of
        None \<Rightarrow> False
      | Some r \<Rightarrow> list_all is_dot_char r \<and> has_b_side r)"

text \<open>\<^verbatim>\<open>/^new file mode /.test(line)\<close>\<close>
definition is_new_file_mode :: "string \<Rightarrow> bool" where
  "is_new_file_mode line = (after_prefix ''new file mode '' line \<noteq> None)"

text \<open>
  \<^verbatim>\<open>/^---\s+\/dev\/null$/.test(line)\<close>: the slash is no white space, so the white space
  matched is the whole run behind the dashes.
\<close>
definition is_dev_null :: "string \<Rightarrow> bool" where
  "is_dev_null line =
     (case after_prefix ''---'' line of
        None \<Rightarrow> False
      | Some r \<Rightarrow> takeWhile is_white_space r \<noteq> [] \<and> dropWhile is_white_space r = ''/dev/null'')"

text \<open>
  \<^verbatim>\<open>/^\+\+\+\s+b\/(.+)$/.exec(line)\<close>, giving the group \<^verbatim>\<open>m[1]\<close> of a match: the letter
  b is no white space, so the white space matched is the whole run behind the plus signs.
\<close>
definition plus_path :: "string \<Rightarrow> string option" where
  "plus_path line =
     (case after_prefix ''+++'' line of
        None \<Rightarrow> None
      | Some r \<Rightarrow>
          if takeWhile is_white_space r = [] then None
          else (case after_prefix ''b/'' (dropWhile is_white_space r) of
                  None \<Rightarrow> None
                | Some p \<Rightarrow> if p \<noteq> [] \<and> list_all is_dot_char p then Some p else None))"

text \<open>
  \<^verbatim>\<open>out.add(p)\<close>: a \<^verbatim>\<open>Set\<close> iterates in insertion order, so it is a list without
  repetitions that grows at its end.
\<close>
definition set_add :: "string \<Rightarrow> string list \<Rightarrow> string list" where
  "set_add p out = (if p \<in> set out then out else out @ [p])"

text \<open>The loop over \<^verbatim>\<open>k\<close>, from \<^verbatim>\<open>j\<close> to \<^verbatim>\<open>Math.min(j + 6, lines.length)\<close>.\<close>
definition scan_plus :: "string list \<Rightarrow> nat \<Rightarrow> string list \<Rightarrow> string list" where
  "scan_plus lines j out =
     fold (\<lambda>k out. case plus_path (line_at lines k) of Some p \<Rightarrow> set_add p out | None \<Rightarrow> out)
       [j ..< min (j + 6) (length lines)] out"

text \<open>
  The loop over \<^verbatim>\<open>j\<close>, given the indices still to visit: the first marker line runs the
  loop over \<^verbatim>\<open>k\<close> and \<^verbatim>\<open>break\<close>s.
\<close>
fun scan_markers :: "string list \<Rightarrow> nat list \<Rightarrow> string list \<Rightarrow> string list" where
  "scan_markers lines [] out = out"
| "scan_markers lines (j # js) out =
     (if is_new_file_mode (line_at lines j) then scan_plus lines j out
      else if is_dev_null (line_at lines j) then scan_plus lines j out
      else scan_markers lines js out)"

text \<open>The body of the loop over \<^verbatim>\<open>i\<close>.\<close>
definition scan_header :: "string list \<Rightarrow> nat \<Rightarrow> string list \<Rightarrow> string list" where
  "scan_header lines i out =
     (if is_diff_header (line_at lines i)
      then scan_markers lines [i + 1 ..< min (i + 8) (length lines)] out
      else out)"

definition parseNewFilesFromPatch :: "jsval \<Rightarrow> string list" where
  "parseNewFilesFromPatch patchText =
     (case patchText of
        Str text \<Rightarrow>
          (let lines = split_lines text
           in fold (scan_header lines) [0 ..< length lines] [])
      | _ \<Rightarrow> [])"

section \<open>The hook\<close>

text \<open>
  \<^verbatim>\<open>v?.k\<close> for the property names the hook reads (tool, args, filePath, path, patch,
  content): \<^verbatim>\<open>undefined\<close> on \<^verbatim>\<open>undefined\<close> and \<^verbatim>\<open>null\<close>, and on a primitive value, whose
  prototype has none of these names.
\<close>
fun opt_get :: "jsval \<Rightarrow> string \<Rightarrow> jsval" where
  "opt_get (Obj props) k = (case map_of props k of Some v \<Rightarrow> v | None \<Rightarrow> Undefined)"
| "opt_get _ k = Undefined"

text \<open>\<^verbatim>\<open>a ?? b\<close>\<close>
fun nullish :: "jsval \<Rightarrow> jsval \<Rightarrow> jsval" where
  "nullish Undefined b = b"
| "nullish Null b = b"
| "nullish a b = a"

text \<open>The branch for \<^verbatim>\<open>tool === "write"\<close>.\<close>
definition write_step :: "sink \<Rightarrow> jsval \<Rightarrow> notifications \<Rightarrow> outcome \<times> notifications" where
  "write_step client output log =
     (let args = opt_get output ''args'';
          p = nullish (opt_get args ''filePath'') (opt_get args ''path'')
      in case p of
           Str s \<Rightarrow> if shouldBlockPath s then reject client s ''write'' log else (Returned, log)
         | _ \<Rightarrow> (Returned, log))"

text \<open>
  The loop \<^verbatim>\<open>for (const p of newFiles)\<close>: a throw of \<^verbatim>\<open>reject\<close> leaves the loop and
  the hook.
\<close>
fun reject_flagged :: "sink \<Rightarrow> string list \<Rightarrow> notifications \<Rightarrow> outcome \<times> notifications" where
  "reject_flagged client [] log = (Returned, log)"
| "reject_flagged client (p # ps) log =
     (if shouldBlockPath p
      then (case reject client p ''patch(add)'' log of
              (Raised m, log') \<Rightarrow> (Raised m, log')
            | (Returned, log') \<Rightarrow> reject_flagged client ps log')
      else reject_flagged client ps log)"

text \<open>The branch for \<^verbatim>\<open>tool === "patch"\<close>.\<close>
definition patch_step :: "sink \<Rightarrow> jsval \<Rightarrow> notifications \<Rightarrow> outcome \<times> notifications" where
  "patch_step client output log =
     (let args = opt_get output ''args'';
          patchText = nullish (opt_get args ''patch'') (opt_get args ''content'');
          newFiles = parseNewFilesFromPatch patchText
      in reject_flagged client newFiles log)"

text \<open>The hook \<^verbatim>\<open>"tool.execute.before"\<close>, started with no notification made.\<close>
definition tool_execute_before :: "sink \<Rightarrow> jsval \<Rightarrow> jsval \<Rightarrow> outcome \<times> notifications" where
  "tool_execute_before client input output =
     (let tool = opt_get input ''tool''
      in case (if tool = Str ''write'' then write_step client output [] else (Returned, [])) of
           (Raised m, log) \<Rightarrow> (Raised m, log)
         | (Returned, log) \<Rightarrow>
             if tool = Str ''patch'' then patch_step client output log else (Returned, log))"

section \<open>The classifier as the specification words it\<close>

text \<open>
  The steps 2 to 6 of the specification's classifier, each written from its sentence and
  not from the code; the classifier of the source is compared with them below.
\<close>

text \<open>
  Step 2: the run of non-dot characters at the end of the name is its extension; when it is
  not empty and a dot stands before it, it is removed together with that dot.
\<close>
definition spec_strip_extension :: "string \<Rightarrow> string" where
  "spec_strip_extension s =
     (let e = takeWhile (\<lambda>c. c \<noteq> CHR ''.'') (rev s)
      in if e \<noteq> [] \<and> length e < length s then take (length s - length e - 1) s else s)"

text \<open>
  Step 3: an underscore goes between a lowercase letter or digit and an uppercase letter
  that follows it immediately.
\<close>
fun spec_camel_boundaries :: "string \<Rightarrow> string" where
  "spec_camel_boundaries (a # b # cs) =
     a # (if (is_lower a \<or> is_digit a) \<and> is_upper b then ''_'' else []) @ spec_camel_boundaries (b # cs)"
| "spec_camel_boundaries cs = cs"

text \<open>Step 5: the maximal runs of letters and digits, in order.\<close>
definition spec_alnum :: "char \<Rightarrow> bool" where
  "spec_alnum c = (c \<in> set ''abcdefghijklmnopqrstuvwxyzABCDEFGHIJKLMNOPQRSTUVWXYZ0123456789'')"

function spec_split_runs :: "string \<Rightarrow> string list" where
  "spec_split_runs s =
     (case dropWhile (\<lambda>c. \<not> spec_alnum c) s of
        [] \<Rightarrow> []
      | w # ws \<Rightarrow> takeWhile spec_alnum (w # ws) # spec_split_runs (dropWhile spec_alnum (w # ws)))"
  by pat_completeness auto
termination
  apply (relation "measure length")
   apply simp
  subgoal for s w ws
    using length_dropWhile_le [of "\<lambda>c. \<not> spec_alnum c" s] length_dropWhile_le [of spec_alnum ws]
      hd_dropWhile [of "\<lambda>c. \<not> spec_alnum c" s]
    by (auto split: if_splits)
  done

text \<open>Step 6: the letter v followed by one or more decimal digits.\<close>
definition spec_version_token :: "string \<Rightarrow> bool" where
  "spec_version_token t =
     (case t of
        c # d # ds \<Rightarrow> c = CHR ''v'' \<and> list_all (\<lambda>x. x \<in> set ''0123456789'') (d # ds)
      | _ \<Rightarrow> False)"

text \<open>Steps 2 to 5 in sequence (step 4 lowercases).\<close>
definition spec_tokens :: "string \<Rightarrow> string list" where
  "spec_tokens b = spec_split_runs (toLowerCase (spec_camel_boundaries (spec_strip_extension b)))"

text \<open>The contract \<^verbatim>\<open>isVariantPath\<close>, on the basename that \<^verbatim>\<open>path.basename\<close> extracts.\<close>
definition spec_isVariantPath :: "string \<Rightarrow> bool" where
  "spec_isVariantPath p = (\<exists>t \<in> set (spec_tokens (basename p)). t \<in> BANNED \<or> spec_version_token t)"

section \<open>Test patches\<close>

text \<open>The line feed.\<close>
definition nl :: string where
  "nl = [CHR 0x0A]"

text \<open>
  The file blocks of a patch as \<^verbatim>\<open>git diff\<close> prints them for a new file with one line:
  one adds "new_enhanced.py", the other "normal.py".
\<close>
definition block_new_enhanced :: string where
  "block_new_enhanced =
     ''diff --git a/new_enhanced.py b/new_enhanced.py'' @ nl @
     ''new file mode 100644'' @ nl @
     ''index 0000000..e69de29'' @ nl @
     ''--- /dev/null'' @ nl @
     ''+++ b/new_enhanced.py'' @ nl @
     ''@@ -0,0 +1 @@'' @ nl @
     ''+print(1)'' @ nl"

definition block_normal :: string where
  "block_normal =
     ''diff --git a/normal.py b/normal.py'' @ nl @
     ''new file mode 100644'' @ nl @
     ''index 0000000..8b13789'' @ nl @
     ''--- /dev/null'' @ nl @
     ''+++ b/normal.py'' @ nl @
     ''@@ -0,0 +1 @@'' @ nl @
     ''+x = 1'' @ nl"

text \<open>
  Three more patches: the new file "report_backup.py" announced by "new file mode" alone,
  the same file announced by "--- /dev/null" alone, and a modified file, which has neither
  marker.
\<close>
definition patch_mode_only :: string where
  "patch_mode_only =
     ''diff --git a/report_backup.py b/report_backup.py'' @ nl @
     ''new file mode 100644'' @ nl @
     ''+++ b/report_backup.py'' @ nl @
     ''@@ -0,0 +1 @@'' @ nl @
     ''+x = 1'' @ nl"

definition patch_dev_null_only :: string where
  "patch_dev_null_only =
     ''diff --git a/report_backup.py b/report_backup.py'' @ nl @
     ''--- /dev/null'' @ nl @
     ''+++ b/report_backup.py'' @ nl @
     ''@@ -0,0 +1 @@'' @ nl @
     ''+x = 1'' @ nl"

definition patch_modified_only :: string where
  "patch_modified_only =
     ''diff --git a/kept.py b/kept.py'' @ nl @
     ''index 8b13789..e69de29 100644'' @ nl @
     ''--- a/kept.py'' @ nl @
     ''+++ b/kept.py'' @ nl @
     ''@@ -1 +1 @@'' @ nl @
     ''-x = 1'' @ nl @
     ''+x = 2'' @ nl"


section \<open>The scanner as the specification words it\<close>

text \<open>
  The lines the specification names, each written from its words. White space is a tab, a
  line feed, a vertical tab, a form feed, a carriage return, a space or a no-break space.
\<close>
definition spec_white_space :: "char \<Rightarrow> bool" where
  "spec_white_space c =
     (c \<in> set [CHR 0x09, CHR 0x0A, CHR 0x0B, CHR 0x0C, CHR 0x0D, CHR '' '', CHR 0xA0])"

text \<open>A path on a line of a diff: one or more characters, none of them a line break.\<close>
definition spec_path :: "string \<Rightarrow> bool" where
  "spec_path s = (s \<noteq> [] \<and> CHR 0x0A \<notin> set s \<and> CHR 0x0D \<notin> set s)"

text \<open>The per-file header \<^verbatim>\<open>diff --git a/<old-path> b/<new-path>\<close>.\<close>
definition spec_header_line :: "string \<Rightarrow> bool" where
  "spec_header_line line =
     (\<exists>old new. spec_path old \<and> spec_path new \<and> line = ''diff --git a/'' @ old @ '' b/'' @ new)"

text \<open>Marker (a): the line of a newly created file, "new file mode" and the mode.\<close>
definition spec_new_file_marker :: "string \<Rightarrow> bool" where
  "spec_new_file_marker line = (\<exists>mode. line = ''new file mode '' @ mode)"

text \<open>Marker (b): the old side is absent, three dashes, white space and "/dev/null".\<close>
definition spec_dev_null_marker :: "string \<Rightarrow> bool" where
  "spec_dev_null_marker line =
     (\<exists>ws. ws \<noteq> [] \<and> list_all spec_white_space ws \<and> line = ''---'' @ ws @ ''/dev/null'')"

text \<open>Either marker.\<close>
definition spec_marker :: "string \<Rightarrow> bool" where
  "spec_marker line = (spec_new_file_marker line \<or> spec_dev_null_marker line)"

text \<open>
  The new-file path header: three plus signs, white space and \<^verbatim>\<open>b/<path>\<close>; the path is what
  stands behind the "b/".
\<close>
definition spec_plus_line :: "string \<Rightarrow> string \<Rightarrow> bool" where
  "spec_plus_line line p =
     (\<exists>ws. ws \<noteq> [] \<and> list_all spec_white_space ws \<and> spec_path p \<and> line = ''+++'' @ ws @ ''b/'' @ p)"

text \<open>
  The paths a header at line \<open>i\<close> contributes: the first marker line \<open>j\<close> among the seven
  lines behind the header (the look-ahead stops before \<open>i + 8\<close>), and every new-file path
  header \<open>k\<close> among the six lines from \<open>j\<close> on.
\<close>
definition spec_added_at :: "string list \<Rightarrow> nat \<Rightarrow> string set" where
  "spec_added_at lines i =
     {p. \<exists>j k. i < j \<and> j < i + 8 \<and> j < length lines \<and> spec_marker (lines ! j)
            \<and> (\<forall>m. i < m \<and> m < j \<longrightarrow> \<not> spec_marker (lines ! m))
            \<and> j \<le> k \<and> k < j + 6 \<and> k < length lines \<and> spec_plus_line (lines ! k) p}"

text \<open>The contract \<^verbatim>\<open>extractAddedFiles\<close>, on the lines of the text: the union over the header lines.\<close>
definition spec_extractAddedFiles :: "string list \<Rightarrow> string set" where
  "spec_extractAddedFiles lines =
     {p. \<exists>i. i < length lines \<and> spec_header_line (lines ! i) \<and> p \<in> spec_added_at lines i}"

section \<open>The loop nest as sets of indices\<close>

text \<open>
  The result of the loops written with the indices and the tests of the source; the proofs
  go through these sets.
\<close>

text \<open>Either test of the loop over \<^verbatim>\<open>j\<close>.\<close>
definition is_marker :: "string \<Rightarrow> bool" where
  "is_marker line = (is_new_file_mode line \<or> is_dev_null line)"

definition window_at :: "string list \<Rightarrow> nat \<Rightarrow> string set" where
  "window_at lines i =
     {p. \<exists>j k. i < j \<and> j < i + 8 \<and> j < length lines \<and> is_marker (lines ! j)
            \<and> (\<forall>m. i < m \<and> m < j \<longrightarrow> \<not> is_marker (lines ! m))
            \<and> j \<le> k \<and> k < j + 6 \<and> k < length lines \<and> plus_path (lines ! k) = Some p}"

definition window_files :: "string list \<Rightarrow> string set" where
  "window_files lines =
     {p. \<exists>i. i < length lines \<and> is_diff_header (lines ! i) \<and> p \<in> window_at lines i}"

section \<open>The scanner read from the rest of the lines\<close>

text \<open>
  The iteration of the scanner at line \<open>i\<close> reads only the lines from \<open>i\<close> on. The functions
  of this section are the loops of the source on that rest of the list; they are shown
  equal to the loops over indices and serve the proofs about patches built from file blocks.
\<close>

text \<open>The body of the loop over \<^verbatim>\<open>k\<close>, on the line itself.\<close>
definition plus_step :: "string \<Rightarrow> string list \<Rightarrow> string list" where
  "plus_step l out = (case plus_path l of Some p \<Rightarrow> set_add p out | None \<Rightarrow> out)"

text \<open>
  The loop over \<^verbatim>\<open>j\<close> on the lines behind a header, \<open>n\<close> of them still to visit: the lines
  the loop over \<^verbatim>\<open>k\<close> reads, which are the six from the first marker on.
\<close>
fun marker_window :: "string list \<Rightarrow> nat \<Rightarrow> string list" where
  "marker_window [] n = []"
| "marker_window (l # ls) 0 = []"
| "marker_window (l # ls) (Suc n) = (if is_marker l then take 6 (l # ls) else marker_window ls n)"

text \<open>The body of the loop over \<^verbatim>\<open>i\<close>, on the lines from \<open>i\<close> on.\<close>
fun suffix_step :: "string list \<Rightarrow> string list \<Rightarrow> string list" where
  "suffix_step [] out = out"
| "suffix_step (l # ls) out =
     (if is_diff_header l then fold plus_step (marker_window ls 7) out else out)"

text \<open>The loop over \<^verbatim>\<open>i\<close>.\<close>
fun scan_all :: "string list \<Rightarrow> string list \<Rightarrow> string list" where
  "scan_all [] out = out"
| "scan_all (l # ls) out = scan_all ls (suffix_step (l # ls) out)"

section \<open>Patches built from file blocks\<close>

text \<open>
  A file block is the path of an added file and the lines of its content. Its path is a
  path of a diff line; its content lines hold no line feed and none begins with "++", so
  that no added line reads as a new-file path header.
\<close>
type_synonym file_block = "string \<times> string list"

definition wf_block :: "file_block \<Rightarrow> bool" where
  "wf_block b =
     (spec_path (fst b) \<and> list_all (\<lambda>l. CHR 0x0A \<notin> set l \<and> take 2 l \<noteq> ''++'') (snd b))"

text \<open>
  The lines \<^verbatim>\<open>git diff\<close> prints for a new file with content: header, mode, index, both
  sides, hunk header, and every content line behind a plus sign.
\<close>
definition block_lines :: "file_block \<Rightarrow> string list" where
  "block_lines b =
     [''diff --git a/'' @ fst b @ '' b/'' @ fst b,
      ''new file mode 100644'',
      ''index 0000000..1111111'',
      ''--- /dev/null'',
      ''+++ b/'' @ fst b,
      ''@@ -0,0 +1 @@'']
     @ map (\<lambda>l. CHR ''+'' # l) (snd b)"

text \<open>The text of a patch: the lines of its blocks, each ended by a line feed.\<close>
definition git_patch :: "file_block list \<Rightarrow> string" where
  "git_patch bs = concat (map (\<lambda>l. l @ nl) (concat (map block_lines bs)))"

section \<open>Facts about the character classes\<close>

lemma is_digit_set: "is_digit c \<longleftrightarrow> c \<in> set ''0123456789''"
  by (cases c) (simp add: is_digit_def code_unit_def)

lemma spec_alnum_iff: "spec_alnum c \<longleftrightarrow> is_lower c \<or> is_upper c \<or> is_digit c"
  by (cases c) (simp add: spec_alnum_def is_digit_def is_upper_def is_lower_def code_unit_def)


lemma upper_not_lower_or_digit: "is_upper c \<Longrightarrow> \<not> is_lower_or_digit c"
  by (auto simp: is_upper_def is_lower_or_digit_def is_lower_def is_digit_def)

lemma lower_char_not_upper: "\<not> is_upper (lower_char c)"
  by (cases c) (simp add: lower_char_def is_upper_def code_unit_def)

section \<open>The tokenizer refines the specification's steps\<close>

lemma strip_ext_no_dot: "CHR ''.'' \<notin> set s \<Longrightarrow> strip_ext s = s"
  by (induction s) auto

lemma strip_ext_last_dot:
  "e \<noteq> [] \<Longrightarrow> CHR ''.'' \<notin> set e \<Longrightarrow> strip_ext (xs @ CHR ''.'' # e) = xs"
  by (induction xs) (auto simp: list_all_iff)

lemma strip_ext_trailing_dot: "strip_ext (xs @ [CHR ''.'']) = xs @ [CHR ''.'']"
  by (induction xs) (auto simp: list_all_iff)

lemma strip_ext_spec: "strip_ext s = spec_strip_extension s"
proof -
  define e where "e = rev (takeWhile (\<lambda>c. c \<noteq> CHR ''.'') (rev s))"
  define xs where "xs = rev (dropWhile (\<lambda>c. c \<noteq> CHR ''.'') (rev s))"
  have "rev s = rev e @ rev xs"
    unfolding xs_def e_def by simp
  then have s: "s = xs @ e"
    by (simp add: rev_swap)
  have e_nd: "CHR ''.'' \<notin> set e"
    unfolding e_def by (auto dest: set_takeWhileD)
  have tw: "takeWhile (\<lambda>c. c \<noteq> CHR ''.'') (rev s) = rev e"
    unfolding e_def by simp
  have spec: "spec_strip_extension s =
      (if e \<noteq> [] \<and> length e < length s then take (length s - length e - 1) s else s)"
    unfolding spec_strip_extension_def tw by (simp add: Let_def)
  show ?thesis
  proof (cases "xs = []")
    case True
    then show ?thesis
      unfolding spec using s e_nd by (simp add: strip_ext_no_dot)
  next
    case False
    then have "last xs = CHR ''.''"
      unfolding xs_def using hd_dropWhile [of "\<lambda>c. c \<noteq> CHR ''.''" "rev s"]
      by (simp add: last_rev)
    with False have "xs = butlast xs @ [CHR ''.'']"
      using append_butlast_last_id [of xs] by simp
    then obtain ys where xs: "xs = ys @ [CHR ''.'']" ..
    show ?thesis
    proof (cases "e = []")
      case True
      then show ?thesis
        unfolding spec using s xs by (simp add: strip_ext_trailing_dot)
    next
      case False
      then show ?thesis
        unfolding spec using s xs e_nd strip_ext_last_dot [of e ys] by simp
    qed
  qed
qed

lemma spec_camel_upper:
  "is_upper b \<Longrightarrow> spec_camel_boundaries (b # cs) = b # spec_camel_boundaries cs"
  using upper_not_lower_or_digit [of b] by (cases cs) (auto simp: is_lower_or_digit_def)

lemma camel_split_spec: "camel_split s = spec_camel_boundaries s"
  by (induction s rule: camel_split.induct)
     (auto simp: spec_camel_upper is_lower_or_digit_def)


lemma isVersionToken_spec: "isVersionToken t = spec_version_token t"
  by (auto simp: isVersionToken_def spec_version_token_def list_all_iff is_digit_set
      split: list.splits)

lemma split_non_alnum_unfold:
  "split_non_alnum s =
     takeWhile is_lower_or_digit s #
       (case dropWhile is_lower_or_digit s of
          [] \<Rightarrow> []
        | x # r \<Rightarrow> split_non_alnum (dropWhile (\<lambda>d. \<not> is_lower_or_digit d) r))"
  by (induction s) auto

lemma spec_split_runs_Nil: "spec_split_runs [] = []"
  by (simp add: spec_split_runs.simps)

lemma spec_split_runs_skip:
  "spec_split_runs (dropWhile (\<lambda>c. \<not> spec_alnum c) s) = spec_split_runs s"
  by (subst (1 2) spec_split_runs.simps) simp

lemma spec_alnum_lowered: "\<not> is_upper c \<Longrightarrow> spec_alnum c = is_lower_or_digit c"
  by (simp add: spec_alnum_iff is_lower_or_digit_def)

lemma tokens_spec_aux:
  "\<forall>c \<in> set s. \<not> is_upper c \<Longrightarrow>
     filter (\<lambda>t. t \<noteq> []) (split_non_alnum s) = spec_split_runs s"
proof (induction s rule: length_induct)
  case (1 s)
  have cong: "spec_alnum c = is_lower_or_digit c" if "c \<in> set s" for c
    using 1(2) that by (simp add: spec_alnum_lowered)
  show ?case
  proof (cases s)
    case Nil
    then show ?thesis by (simp add: spec_split_runs.simps)
  next
    case (Cons c cs)
    show ?thesis
    proof (cases "is_lower_or_digit c")
      case False
      let ?r = "dropWhile (\<lambda>d. \<not> is_lower_or_digit d) cs"
      have len: "length ?r < length s"
        using Cons length_dropWhile_le [of "\<lambda>d. \<not> is_lower_or_digit d" cs] by simp
      have sub: "\<forall>c \<in> set ?r. \<not> is_upper c"
        using 1(2) Cons by (auto dest: set_dropWhileD)
      have eq: "dropWhile (\<lambda>c. \<not> spec_alnum c) s = dropWhile (\<lambda>d. \<not> is_lower_or_digit d) s"
        by (rule dropWhile_cong) (simp_all add: cong)
      have "filter (\<lambda>t. t \<noteq> []) (split_non_alnum s) = filter (\<lambda>t. t \<noteq> []) (split_non_alnum ?r)"
        using Cons False by simp
      also have "\<dots> = spec_split_runs ?r"
        using 1(1) len sub by blast
      also have "?r = dropWhile (\<lambda>c. \<not> spec_alnum c) s"
        using eq Cons False by simp
      finally show ?thesis
        by (simp add: spec_split_runs_skip)
    next
      case True
      have tw: "takeWhile spec_alnum s = takeWhile is_lower_or_digit s"
        by (rule takeWhile_cong) (simp_all add: cong)
      have dw: "dropWhile spec_alnum s = dropWhile is_lower_or_digit s"
        by (rule dropWhile_cong) (simp_all add: cong)
      have first: "dropWhile (\<lambda>c. \<not> spec_alnum c) s = s"
        using Cons True cong [of c] by simp
      have ne: "takeWhile is_lower_or_digit s \<noteq> []"
        using Cons True by simp
      have spec: "spec_split_runs s =
          takeWhile is_lower_or_digit s # spec_split_runs (dropWhile is_lower_or_digit s)"
        using Cons first tw dw by (subst spec_split_runs.simps) simp
      show ?thesis
      proof (cases "dropWhile is_lower_or_digit s")
        case Nil
        have "split_non_alnum s = [takeWhile is_lower_or_digit s]"
          by (subst split_non_alnum_unfold) (simp only: Nil list.case)
        then show ?thesis
          using ne spec Nil by (simp add: spec_split_runs_Nil)
      next
        case (Cons x r)
        let ?r = "dropWhile (\<lambda>d. \<not> is_lower_or_digit d) r"
        have "length (x # r) \<le> length s"
          using length_dropWhile_le [of is_lower_or_digit s] Cons by simp
        then have len: "length ?r < length s"
          using length_dropWhile_le [of "\<lambda>d. \<not> is_lower_or_digit d" r] by simp
        have "set (x # r) \<subseteq> set s"
          using set_dropWhileD [of _ is_lower_or_digit s] Cons by auto
        then have in_s: "x \<in> set s" "set ?r \<subseteq> set s"
          using set_dropWhileD [of _ "\<lambda>d. \<not> is_lower_or_digit d" r] by auto
        have sub: "\<forall>c \<in> set ?r. \<not> is_upper c"
          using 1(2) in_s by auto
        have nx: "\<not> is_lower_or_digit x"
          using hd_dropWhile [of is_lower_or_digit s] Cons by simp
        have "spec_split_runs (x # r) = spec_split_runs (dropWhile (\<lambda>c. \<not> spec_alnum c) (x # r))"
          by (simp only: spec_split_runs_skip)
        also have "dropWhile (\<lambda>c. \<not> spec_alnum c) (x # r) = dropWhile (\<lambda>d. \<not> is_lower_or_digit d) (x # r)"
          by (rule dropWhile_cong) (use Cons in_s \<open>set (x # r) \<subseteq> set s\<close> cong in auto)
        also have "\<dots> = ?r"
          using nx by simp
        finally have skip: "spec_split_runs (x # r) = spec_split_runs ?r" .
        have "filter (\<lambda>t. t \<noteq> []) (split_non_alnum ?r) = spec_split_runs ?r"
          using 1(1) len sub by blast
        then show ?thesis
          using ne spec Cons skip by (subst split_non_alnum_unfold) simp
      qed
    qed
  qed
qed

lemma tokenize_spec: "tokenize b = spec_tokens b"
  unfolding tokenize_def spec_tokens_def Let_def strip_ext_spec camel_split_spec
  by (rule tokens_spec_aux) (simp add: toLowerCase_def lower_char_not_upper)

text \<open>
  Claim C1. For every path, the classifier of the source answers true exactly when some
  token of the normalized basename (extension stripped, camelCase boundaries split,
  lowercased, split on runs of non-alphanumeric characters) is in the banned set or is the
  letter v followed by one or more decimal digits. "feature_enhanced.ts" and
  "parser_v2.rs" classify true; "feature.ts", "parser_v.rs" and "parser_version.rs"
  classify false.
\<close>
theorem shouldBlockPath_iff_spec:
  "shouldBlockPath p = spec_isVariantPath p
   \<and> shouldBlockPath ''feature_enhanced.ts'' \<and> shouldBlockPath ''parser_v2.rs''
   \<and> \<not> shouldBlockPath ''feature.ts'' \<and> \<not> shouldBlockPath ''parser_v.rs''
   \<and> \<not> shouldBlockPath ''parser_version.rs''"
proof -
  have "shouldBlockPath p = spec_isVariantPath p"
    by (simp add: shouldBlockPath_def spec_isVariantPath_def tokenize_spec isVersionToken_spec
        list_ex_iff)
  moreover have "shouldBlockPath ''feature_enhanced.ts''" by code_simp
  moreover have "shouldBlockPath ''parser_v2.rs''" by code_simp
  moreover have "\<not> shouldBlockPath ''feature.ts''" by code_simp
  moreover have "\<not> shouldBlockPath ''parser_v.rs''" by code_simp
  moreover have "\<not> shouldBlockPath ''parser_version.rs''" by code_simp
  ultimately show ?thesis by simp
qed


section \<open>Classification and the basename\<close>

lemma basename_no_slash: "CHR ''/'' \<notin> set (basename p)"
  unfolding basename_def by (auto dest: set_takeWhileD)

lemma basename_plain: "s \<noteq> [] \<Longrightarrow> CHR ''/'' \<notin> set s \<Longrightarrow> basename (d @ CHR ''/'' # s) = s"
proof -
  assume ne: "s \<noteq> []" and ns: "CHR ''/'' \<notin> set s"
  have all: "\<forall>c \<in> set (rev s). c \<noteq> CHR ''/''"
    using ns by auto
  have "rev s \<noteq> []" using ne by simp
  then obtain x xs where r: "rev s = x # xs" by (cases "rev s") auto
  then have x: "x \<noteq> CHR ''/''" using all by simp
  have dw: "dropWhile (\<lambda>c. c = CHR ''/'') (rev s @ CHR ''/'' # rev d) = rev s @ CHR ''/'' # rev d"
    using r x by simp
  have tw: "takeWhile (\<lambda>c. c \<noteq> CHR ''/'') (rev s @ CHR ''/'' # rev d) = rev s"
    using all by (simp add: takeWhile_tail)
  have "rev (d @ CHR ''/'' # s) = rev s @ CHR ''/'' # rev d"
    by simp
  then show ?thesis
    unfolding basename_def by (simp only: dw tw rev_rev_ident)
qed

lemma basename_fixed: "CHR ''/'' \<notin> set s \<Longrightarrow> basename s = s"
proof -
  assume ns: "CHR ''/'' \<notin> set s"
  have d: "dropWhile (\<lambda>c. c = CHR ''/'') (rev s) = rev s"
    using ns by (cases "rev s") auto
  have t: "takeWhile (\<lambda>c. c \<noteq> CHR ''/'') (rev s) = rev s"
    using ns by auto
  show ?thesis
    unfolding basename_def d t by simp
qed

lemma basename_idem: "basename (basename p) = basename p"
  by (rule basename_fixed) (rule basename_no_slash)

text \<open>
  Claim C8. Classification depends on the basename only: every path classifies as its
  basename does, two paths with the same basename classify alike, and a directory part in
  front of a name changes nothing, so a banned word in a directory segment alone, as in
  "backup/utils.js", does not flag the path. The classifier is a function of the path
  string and of nothing else.
\<close>
theorem classification_by_basename:
  "shouldBlockPath p = shouldBlockPath (basename p)
   \<and> (basename p = basename q \<longrightarrow> shouldBlockPath p = shouldBlockPath q)
   \<and> (name \<noteq> [] \<and> CHR ''/'' \<notin> set name \<longrightarrow>
        shouldBlockPath (dir @ CHR ''/'' # name) = shouldBlockPath name)
   \<and> \<not> shouldBlockPath ''backup/utils.js''"
proof -
  have "\<not> shouldBlockPath ''backup/utils.js''" by code_simp
  then show ?thesis
    by (simp add: shouldBlockPath_def basename_idem basename_plain basename_fixed)
qed

theorem classification_by_basename_witness:
  "shouldBlockPath ''old/src/utils.js'' = shouldBlockPath ''new/utils.js''
   \<and> shouldBlockPath ''backup/utils.js'' = shouldBlockPath ''utils.js''
   \<and> shouldBlockPath ''utils.js'' = False"
proof -
  have b: "basename ''old/src/utils.js'' = basename ''new/utils.js''" by code_simp
  have n: "''utils.js'' \<noteq> [] \<and> CHR ''/'' \<notin> set ''utils.js''" by simp
  have u: "\<not> shouldBlockPath ''utils.js''" by code_simp
  note t = classification_by_basename [of "''old/src/utils.js''" "''new/utils.js''" "''utils.js''" "''backup''"]
  from t b have 1: "shouldBlockPath ''old/src/utils.js'' = shouldBlockPath ''new/utils.js''"
    by blast
  from t n have 2: "shouldBlockPath ''backup/utils.js'' = shouldBlockPath ''utils.js''"
    by simp
  from 1 2 u show ?thesis
    by simp
qed

section \<open>Extension stripping\<close>

text \<open>
  Claim C4 as stated fails on the code: the pattern of the source also matches a name that is
  nothing but a dot and an extension, so ".env" has no token at all, not the token "env",
  and ".tmp" is not flagged.
\<close>
theorem hidden_file_counterexample:
  "tokenize ''.env'' = [] \<and> tokenize ''.env'' \<noteq> [''env''] \<and> \<not> shouldBlockPath ''.tmp''"
proof -
  have "tokenize ''.env'' = []" by code_simp
  moreover have "\<not> shouldBlockPath ''.tmp''" by code_simp
  ultimately show ?thesis by simp
qed

lemma tokenize_empty_stem: "strip_ext b = [] \<Longrightarrow> tokenize b = []"
  by (simp add: tokenize_def toLowerCase_def)

text \<open>
  Claim C4, amended. Extension stripping removes exactly the final suffix made of a dot and
  one or more non-dot characters: a name without a dot is unchanged and "archive.tar.gz"
  loses ".gz" only. The suffix is removed also when it is the whole name: a hidden-file
  basename made of a leading dot and non-dot characters is stripped to the empty string,
  has no tokens and classifies false, as ".env" and ".tmp" do.
\<close>
theorem strip_ext_final_suffix:
  "(CHR ''.'' \<notin> set s \<longrightarrow> strip_ext s = s)
   \<and> (e \<noteq> [] \<and> CHR ''.'' \<notin> set e \<longrightarrow>
        strip_ext (xs @ CHR ''.'' # e) = xs
        \<and> strip_ext (CHR ''.'' # e) = []
        \<and> tokenize (CHR ''.'' # e) = []
        \<and> (CHR ''/'' \<notin> set e \<longrightarrow> \<not> shouldBlockPath (CHR ''.'' # e)))
   \<and> strip_ext ''archive.tar.gz'' = ''archive.tar''
   \<and> tokenize ''.env'' = []
   \<and> \<not> shouldBlockPath ''.tmp''"
proof -
  have a: "strip_ext ''archive.tar.gz'' = ''archive.tar''" by code_simp
  have b: "tokenize ''.env'' = []" by code_simp
  have c: "\<not> shouldBlockPath ''.tmp''" by code_simp
  have d: "strip_ext (CHR ''.'' # e) = []" if "e \<noteq> []" "CHR ''.'' \<notin> set e"
    using strip_ext_last_dot [of e "[]"] that by simp
  have f: "\<not> shouldBlockPath (CHR ''.'' # e)"
    if "e \<noteq> []" "CHR ''.'' \<notin> set e" "CHR ''/'' \<notin> set e"
    using that d by (simp add: shouldBlockPath_def basename_fixed tokenize_empty_stem)
  show ?thesis
    using a b c d f by (auto simp: strip_ext_no_dot strip_ext_last_dot tokenize_empty_stem)
qed

theorem strip_ext_final_suffix_witness:
  "strip_ext ''Makefile'' = ''Makefile''
   \<and> strip_ext ''a.b.c'' = ''a.b''
   \<and> tokenize ''.bak'' = []
   \<and> shouldBlockPath ''.bak'' = False"
proof -
  have 1: "CHR ''.'' \<notin> set ''Makefile''" by simp
  have 2: "''c'' \<noteq> [] \<and> CHR ''.'' \<notin> set ''c''" by simp
  have 3: "''bak'' \<noteq> [] \<and> CHR ''.'' \<notin> set ''bak'' \<and> CHR ''/'' \<notin> set ''bak''" by simp
  show ?thesis
    using strip_ext_final_suffix [of "''Makefile''" "''c''" "''a.b''"]
      strip_ext_final_suffix [of "''Makefile''" "''bak''" "[]"] 1 2 3
    by simp
qed

section \<open>Uppercase names\<close>

lemma camel_split_no_upper: "\<forall>c \<in> set s. \<not> is_upper c \<Longrightarrow> camel_split s = s"
  by (induction s rule: camel_split.induct) auto

lemma camel_split_upper_prefix:
  "\<forall>c \<in> set us. is_upper c \<Longrightarrow> \<forall>c \<in> set ds. is_digit c \<Longrightarrow> camel_split (us @ ds) = us @ ds"
proof (induction us)
  case Nil
  have "\<forall>c \<in> set ds. \<not> is_upper c"
    using Nil by (auto simp: is_digit_def is_upper_def)
  then show ?case by (simp add: camel_split_no_upper)
next
  case (Cons u us)
  then have "\<not> is_lower_or_digit u"
    using upper_not_lower_or_digit by simp
  then show ?case
    using Cons by (cases "us @ ds") auto
qed

lemma split_non_alnum_single:
  "\<forall>c \<in> set t. is_lower_or_digit c \<Longrightarrow> split_non_alnum t = [t]"
  by (induction t) auto

lemma lower_char_upper: "is_upper c \<Longrightarrow> is_lower_or_digit (lower_char c)"
  by (cases c) (simp add: lower_char_def is_upper_def is_lower_or_digit_def is_lower_def is_digit_def code_unit_def)

lemma lower_char_digit: "is_digit c \<Longrightarrow> is_lower_or_digit (lower_char c)"
  by (auto simp: lower_char_def is_upper_def is_digit_def is_lower_or_digit_def)

text \<open>
  Claim C10. The camelCase split puts a separator only between a lowercase letter or digit
  and an uppercase letter right behind it, so a name of uppercase letters, with digits at
  most at its end, is one token: "PARSERV2.md" has the single token "parserv2" and is not
  flagged, "ParserV2.md" has the tokens "parser" and "v2" and is flagged, and
  "ENHANCED.md" is flagged.
\<close>
theorem uppercase_compound_single_token:
  "((\<forall>c \<in> set us. is_upper c) \<and> (\<forall>c \<in> set ds. is_digit c) \<and> us @ ds \<noteq> []
      \<and> e \<noteq> [] \<and> CHR ''.'' \<notin> set e \<longrightarrow>
      tokenize (us @ ds @ CHR ''.'' # e) = [toLowerCase (us @ ds)])
   \<and> camel_split s = spec_camel_boundaries s
   \<and> tokenize ''PARSERV2.md'' = [''parserv2'']
   \<and> \<not> shouldBlockPath ''PARSERV2.md''
   \<and> tokenize ''ParserV2.md'' = [''parser'', ''v2'']
   \<and> shouldBlockPath ''ParserV2.md''
   \<and> shouldBlockPath ''ENHANCED.md''"
proof -
  have gen: "tokenize (us @ ds @ CHR ''.'' # e) = [toLowerCase (us @ ds)]"
    if u: "\<forall>c \<in> set us. is_upper c" and d: "\<forall>c \<in> set ds. is_digit c"
      and ne: "us @ ds \<noteq> []" and e: "e \<noteq> []" "CHR ''.'' \<notin> set e"
  proof -
    have "strip_ext ((us @ ds) @ CHR ''.'' # e) = us @ ds"
      using e by (rule strip_ext_last_dot)
    moreover have "camel_split (us @ ds) = us @ ds"
      using u d by (rule camel_split_upper_prefix)
    moreover have "\<forall>c \<in> set (toLowerCase (us @ ds)). is_lower_or_digit c"
      using u d by (auto simp: toLowerCase_def lower_char_upper lower_char_digit)
    then have "split_non_alnum (toLowerCase (us @ ds)) = [toLowerCase (us @ ds)]"
      by (rule split_non_alnum_single)
    moreover have "toLowerCase (us @ ds) \<noteq> []"
      using ne by (simp add: toLowerCase_def)
    ultimately show ?thesis
      by (simp add: tokenize_def)
  qed
  have 1: "tokenize ''PARSERV2.md'' = [''parserv2'']" by code_simp
  have 2: "\<not> shouldBlockPath ''PARSERV2.md''" by code_simp
  have 3: "tokenize ''ParserV2.md'' = [''parser'', ''v2'']" by code_simp
  have 4: "shouldBlockPath ''ParserV2.md''" by code_simp
  have 5: "shouldBlockPath ''ENHANCED.md''" by code_simp
  show ?thesis
    using gen 1 2 3 4 5 camel_split_spec [of s] by blast
qed

theorem uppercase_compound_single_token_witness:
  "tokenize ''PARSERV2.md'' = [toLowerCase ''PARSERV2''] \<and> toLowerCase ''PARSERV2'' = ''parserv2''"
proof -
  have h: "(\<forall>c \<in> set ''PARSERV''. is_upper c) \<and> (\<forall>c \<in> set ''2''. is_digit c) \<and> ''PARSERV'' @ ''2'' \<noteq> []
      \<and> ''md'' \<noteq> [] \<and> CHR ''.'' \<notin> set ''md''"
    by (simp add: is_upper_def is_digit_def code_unit_def)
  have l: "toLowerCase ''PARSERV2'' = ''parserv2''" by code_simp
  show ?thesis
    using uppercase_compound_single_token [of "''PARSERV''" "''2''" "''md''"] h l by simp
qed


section \<open>The hook: writes, other tools, and the sink\<close>

lemma reject_raises:
  "reject client filePath via log = (Raised (reject_msg filePath via), log @ [reject_msg filePath via])"
  by (simp add: reject_def Let_def split: toast_result.split)

lemma reject_msg_contains:
  "\<exists>pre post. reject_msg filePath via = pre @ filePath @ post"
  unfolding reject_msg_def
  by (metis append.assoc)

lemma reject_flagged_find:
  "reject_flagged client ps log =
     (case find shouldBlockPath ps of
        None \<Rightarrow> (Returned, log)
      | Some p \<Rightarrow> (Raised (reject_msg p ''patch(add)''), log @ [reject_msg p ''patch(add)'']))"
  by (induction ps) (simp_all add: reject_raises)

lemma write_step_cases:
  "write_step client output log =
     (case nullish (opt_get (opt_get output ''args'') ''filePath'')
             (opt_get (opt_get output ''args'') ''path'') of
        Str s \<Rightarrow> if shouldBlockPath s
                 then (Raised (reject_msg s ''write''), log @ [reject_msg s ''write''])
                 else (Returned, log)
      | _ \<Rightarrow> (Returned, log))"
  by (simp add: write_step_def Let_def reject_raises split: jsval.split)

lemma hook_write:
  "opt_get input ''tool'' = Str ''write'' \<Longrightarrow>
     tool_execute_before client input output = write_step client output []"
  by (simp add: tool_execute_before_def Let_def write_step_cases split: jsval.split)

lemma hook_patch:
  "opt_get input ''tool'' = Str ''patch'' \<Longrightarrow>
     tool_execute_before client input output = patch_step client output []"
  by (simp add: tool_execute_before_def Let_def)

lemma hook_other:
  "opt_get input ''tool'' \<noteq> Str ''write'' \<Longrightarrow> opt_get input ''tool'' \<noteq> Str ''patch'' \<Longrightarrow>
     tool_execute_before client input output = (Returned, [])"
  by (simp add: tool_execute_before_def Let_def)

lemma patch_step_find:
  "patch_step client output log =
     (case find shouldBlockPath
             (parseNewFilesFromPatch
               (nullish (opt_get (opt_get output ''args'') ''patch'')
                  (opt_get (opt_get output ''args'') ''content''))) of
        None \<Rightarrow> (Returned, log)
      | Some p \<Rightarrow> (Raised (reject_msg p ''patch(add)''), log @ [reject_msg p ''patch(add)'']))"
  by (simp add: patch_step_def Let_def reject_flagged_find)

lemma nullish_not_string: "\<not> is_string a \<Longrightarrow> \<not> is_string b \<Longrightarrow> \<not> is_string (nullish a b)"
  by (cases a) (simp_all add: is_string_def)

lemma parse_not_string: "\<not> is_string v \<Longrightarrow> parseNewFilesFromPatch v = []"
  by (cases v) (simp_all add: is_string_def parseNewFilesFromPatch_def)

text \<open>
  Claim C2. The hook called for the tool "write" with the argument filePath
  "src/simple_utils.js" throws, and the message of the error contains that path; with
  filePath "src/utils.js" it returns. Called for a tool that is neither "write" nor "patch"
  (such as "read" or "list") it returns, whatever the arguments are, and hands nothing to
  the sink: neither branch that classifies is entered.
\<close>
theorem hook_write_and_unrelated_tools:
  "(opt_get input ''tool'' = Str ''write''
      \<and> opt_get (opt_get output ''args'') ''filePath'' = Str ''src/simple_utils.js'' \<longrightarrow>
      tool_execute_before client input output =
        (Raised (reject_msg ''src/simple_utils.js'' ''write''),
         [reject_msg ''src/simple_utils.js'' ''write'']))
   \<and> (\<exists>pre post. reject_msg ''src/simple_utils.js'' ''write'' = pre @ ''src/simple_utils.js'' @ post)
   \<and> (opt_get input ''tool'' = Str ''write''
      \<and> opt_get (opt_get output ''args'') ''filePath'' = Str ''src/utils.js'' \<longrightarrow>
      tool_execute_before client input output = (Returned, []))
   \<and> (opt_get input ''tool'' \<noteq> Str ''write'' \<and> opt_get input ''tool'' \<noteq> Str ''patch'' \<longrightarrow>
      tool_execute_before client input output = (Returned, []))"
proof -
  have a: "shouldBlockPath ''src/simple_utils.js''" by code_simp
  have b: "\<not> shouldBlockPath ''src/utils.js''" by code_simp
  show ?thesis
    using a b reject_msg_contains [of "''src/simple_utils.js''" "''write''"]
    by (auto simp: hook_write hook_other write_step_cases)
qed

theorem hook_write_and_unrelated_tools_witness:
  "fst (tool_execute_before (\<lambda>m. Shown)
      (Obj [(''tool'', Str ''write'')])
      (Obj [(''args'', Obj [(''filePath'', Str ''src/simple_utils.js''), (''content'', Str ''x'')])]))
     = Raised (reject_msg ''src/simple_utils.js'' ''write'')
   \<and> tool_execute_before (\<lambda>m. Shown)
      (Obj [(''tool'', Str ''write'')])
      (Obj [(''args'', Obj [(''filePath'', Str ''src/utils.js''), (''content'', Str ''x'')])])
     = (Returned, [])
   \<and> tool_execute_before (\<lambda>m. Faulted)
      (Obj [(''tool'', Str ''read'')])
      (Obj [(''args'', Obj [(''filePath'', Str ''src/simple_utils.js'')])])
     = (Returned, [])
   \<and> tool_execute_before (\<lambda>m. Faulted)
      (Obj [(''tool'', Str ''list'')])
      (Obj [(''args'', Obj [(''path'', Str ''old_backup'')])])
     = (Returned, [])"
proof -
  note t1 = hook_write_and_unrelated_tools [of "Obj [(''tool'', Str ''write'')]"
      "Obj [(''args'', Obj [(''filePath'', Str ''src/simple_utils.js''), (''content'', Str ''x'')])]" "\<lambda>m. Shown"]
  note t2 = hook_write_and_unrelated_tools [of "Obj [(''tool'', Str ''write'')]"
      "Obj [(''args'', Obj [(''filePath'', Str ''src/utils.js''), (''content'', Str ''x'')])]" "\<lambda>m. Shown"]
  note t3 = hook_write_and_unrelated_tools [of "Obj [(''tool'', Str ''read'')]"
      "Obj [(''args'', Obj [(''filePath'', Str ''src/simple_utils.js'')])]" "\<lambda>m. Faulted"]
  note t4 = hook_write_and_unrelated_tools [of "Obj [(''tool'', Str ''list'')]"
      "Obj [(''args'', Obj [(''path'', Str ''old_backup'')])]" "\<lambda>m. Faulted"]
  from t1 have 1: "fst (tool_execute_before (\<lambda>m. Shown)
      (Obj [(''tool'', Str ''write'')])
      (Obj [(''args'', Obj [(''filePath'', Str ''src/simple_utils.js''), (''content'', Str ''x'')])]))
     = Raised (reject_msg ''src/simple_utils.js'' ''write'')" by simp
  from t2 have 2: "tool_execute_before (\<lambda>m. Shown)
      (Obj [(''tool'', Str ''write'')])
      (Obj [(''args'', Obj [(''filePath'', Str ''src/utils.js''), (''content'', Str ''x'')])])
     = (Returned, [])" by simp
  from t3 have 3: "tool_execute_before (\<lambda>m. Faulted)
      (Obj [(''tool'', Str ''read'')])
      (Obj [(''args'', Obj [(''filePath'', Str ''src/simple_utils.js'')])])
     = (Returned, [])" by simp
  from t4 have 4: "tool_execute_before (\<lambda>m. Faulted)
      (Obj [(''tool'', Str ''list'')])
      (Obj [(''args'', Obj [(''path'', Str ''old_backup'')])])
     = (Returned, [])" by simp
  from 1 2 3 4 show ?thesis by blast
qed

text \<open>
  Claim C6. A fault of the notification sink is swallowed inside the reject step: the step
  throws the same error with the same message whether the sink completes or faults, the
  result of the hook does not depend on the sink, and a flagged path is rejected also when
  the sink faults, for a write and for a patch.
\<close>
theorem rejection_survives_sink_fault:
  "reject client filePath via log = (Raised (reject_msg filePath via), log @ [reject_msg filePath via])
   \<and> reject (\<lambda>m. Faulted) filePath via log = reject (\<lambda>m. Shown) filePath via log
   \<and> tool_execute_before client input output = tool_execute_before (\<lambda>m. Shown) input output
   \<and> (opt_get input ''tool'' = Str ''write''
        \<and> nullish (opt_get (opt_get output ''args'') ''filePath'')
             (opt_get (opt_get output ''args'') ''path'') = Str p
        \<and> shouldBlockPath p \<longrightarrow>
        fst (tool_execute_before (\<lambda>m. Faulted) input output) = Raised (reject_msg p ''write''))
   \<and> (opt_get input ''tool'' = Str ''patch''
        \<and> find shouldBlockPath
             (parseNewFilesFromPatch
               (nullish (opt_get (opt_get output ''args'') ''patch'')
                  (opt_get (opt_get output ''args'') ''content''))) = Some p \<longrightarrow>
        fst (tool_execute_before (\<lambda>m. Faulted) input output) = Raised (reject_msg p ''patch(add)''))"
proof -
  have indep: "tool_execute_before client input output = tool_execute_before (\<lambda>m. Shown) input output"
  proof (cases "opt_get input ''tool'' = Str ''write''")
    case True
    then show ?thesis by (simp add: hook_write write_step_cases)
  next
    case False
    then show ?thesis
      by (cases "opt_get input ''tool'' = Str ''patch''")
         (simp_all add: hook_patch hook_other patch_step_find)
  qed
  show ?thesis
    using indep by (auto simp: reject_raises hook_write hook_patch write_step_cases patch_step_find)
qed

theorem rejection_survives_sink_fault_witness:
  "tool_execute_before (\<lambda>m. Faulted)
      (Obj [(''tool'', Str ''write'')])
      (Obj [(''args'', Obj [(''path'', Str ''lib/parser_v2.rs'')])])
     = (Raised (reject_msg ''lib/parser_v2.rs'' ''write''), [reject_msg ''lib/parser_v2.rs'' ''write''])"
proof -
  have a: "shouldBlockPath ''lib/parser_v2.rs''" by code_simp
  note t = rejection_survives_sink_fault [of "\<lambda>m. Faulted" "''lib/parser_v2.rs''" "''write''" "[]"
      "Obj [(''tool'', Str ''write'')]" "Obj [(''args'', Obj [(''path'', Str ''lib/parser_v2.rs'')])]"
      "''lib/parser_v2.rs''"]
  have h1: "opt_get (Obj [(''tool'', Str ''write'')]) ''tool'' = Str ''write''"
    by simp
  have h2: "nullish (opt_get (opt_get (Obj [(''args'', Obj [(''path'', Str ''lib/parser_v2.rs'')])]) ''args'') ''filePath'')
      (opt_get (opt_get (Obj [(''args'', Obj [(''path'', Str ''lib/parser_v2.rs'')])]) ''args'') ''path'')
      = Str ''lib/parser_v2.rs''"
    by simp
  from t h1 h2 a have "fst (tool_execute_before (\<lambda>m. Faulted)
      (Obj [(''tool'', Str ''write'')])
      (Obj [(''args'', Obj [(''path'', Str ''lib/parser_v2.rs'')])]))
     = Raised (reject_msg ''lib/parser_v2.rs'' ''write'')" by blast
  moreover have "snd (tool_execute_before (\<lambda>m. Faulted)
      (Obj [(''tool'', Str ''write'')])
      (Obj [(''args'', Obj [(''path'', Str ''lib/parser_v2.rs'')])]))
     = [reject_msg ''lib/parser_v2.rs'' ''write'']"
    using a by (simp add: hook_write write_step_cases)
  ultimately show ?thesis
    by (simp add: prod_eq_iff)
qed

text \<open>
  Claim C9. A "write" call in which neither filePath nor path is a string, and a "patch"
  call in which neither patch nor content is a string, returns without a rejection and
  without a notification.
\<close>
theorem non_string_arguments_pass:
  "(opt_get input ''tool'' = Str ''write''
      \<and> \<not> is_string (opt_get (opt_get output ''args'') ''filePath'')
      \<and> \<not> is_string (opt_get (opt_get output ''args'') ''path'') \<longrightarrow>
      tool_execute_before client input output = (Returned, []))
   \<and> (opt_get input ''tool'' = Str ''patch''
      \<and> \<not> is_string (opt_get (opt_get output ''args'') ''patch'')
      \<and> \<not> is_string (opt_get (opt_get output ''args'') ''content'') \<longrightarrow>
      tool_execute_before client input output = (Returned, []))"
proof -
  have w: "tool_execute_before client input output = (Returned, [])"
    if "opt_get input ''tool'' = Str ''write''"
      "\<not> is_string (opt_get (opt_get output ''args'') ''filePath'')"
      "\<not> is_string (opt_get (opt_get output ''args'') ''path'')"
  proof -
    have "\<not> is_string (nullish (opt_get (opt_get output ''args'') ''filePath'')
             (opt_get (opt_get output ''args'') ''path''))"
      using that(2,3) by (rule nullish_not_string)
    then show ?thesis
      using that(1) by (simp add: hook_write write_step_cases is_string_def split: jsval.splits)
  qed
  have p: "tool_execute_before client input output = (Returned, [])"
    if "opt_get input ''tool'' = Str ''patch''"
      "\<not> is_string (opt_get (opt_get output ''args'') ''patch'')"
      "\<not> is_string (opt_get (opt_get output ''args'') ''content'')"
  proof -
    have "\<not> is_string (nullish (opt_get (opt_get output ''args'') ''patch'')
             (opt_get (opt_get output ''args'') ''content''))"
      using that(2,3) by (rule nullish_not_string)
    then show ?thesis
      using that(1) by (simp add: hook_patch patch_step_find parse_not_string)
  qed
  show ?thesis using w p by blast
qed

theorem non_string_arguments_pass_witness:
  "tool_execute_before (\<lambda>m. Shown)
      (Obj [(''tool'', Str ''write'')])
      (Obj [(''args'', Obj [(''filePath'', Null), (''path'', Num 7)])])
     = (Returned, [])
   \<and> tool_execute_before (\<lambda>m. Shown) (Obj [(''tool'', Str ''write'')]) Undefined = (Returned, [])
   \<and> tool_execute_before (\<lambda>m. Shown)
      (Obj [(''tool'', Str ''patch'')])
      (Obj [(''args'', Obj [(''patch'', Bool True)])])
     = (Returned, [])"
proof -
  note t1 = non_string_arguments_pass [of "Obj [(''tool'', Str ''write'')]"
      "Obj [(''args'', Obj [(''filePath'', Null), (''path'', Num 7)])]" "\<lambda>m. Shown"]
  note t2 = non_string_arguments_pass [of "Obj [(''tool'', Str ''write'')]" Undefined "\<lambda>m. Shown"]
  note t3 = non_string_arguments_pass [of "Obj [(''tool'', Str ''patch'')]"
      "Obj [(''args'', Obj [(''patch'', Bool True)])]" "\<lambda>m. Shown"]
  from t1 have 1: "tool_execute_before (\<lambda>m. Shown)
      (Obj [(''tool'', Str ''write'')])
      (Obj [(''args'', Obj [(''filePath'', Null), (''path'', Num 7)])])
     = (Returned, [])" by (simp add: is_string_def)
  from t2 have 2: "tool_execute_before (\<lambda>m. Shown) (Obj [(''tool'', Str ''write'')]) Undefined = (Returned, [])"
    by (simp add: is_string_def)
  from t3 have 3: "tool_execute_before (\<lambda>m. Shown)
      (Obj [(''tool'', Str ''patch'')])
      (Obj [(''args'', Obj [(''patch'', Bool True)])])
     = (Returned, [])" by (simp add: is_string_def)
  from 1 2 3 show ?thesis by blast
qed


section \<open>The loop nest computes its index sets\<close>

lemma set_set_add: "set (set_add p out) = insert p (set out)"
  by (auto simp: set_add_def)

lemma distinct_set_add: "distinct out \<Longrightarrow> distinct (set_add p out)"
  by (simp add: set_add_def)

lemma fold_plus_set:
  "set (fold (\<lambda>k out. case plus_path (line_at lines k) of Some p \<Rightarrow> set_add p out | None \<Rightarrow> out) ks out)
     = set out \<union> {p. \<exists>k \<in> set ks. plus_path (line_at lines k) = Some p}"
  by (induction ks arbitrary: out) (auto simp: set_set_add split: option.splits)

lemma fold_plus_distinct:
  "distinct out \<Longrightarrow>
     distinct (fold (\<lambda>k out. case plus_path (line_at lines k) of Some p \<Rightarrow> set_add p out | None \<Rightarrow> out) ks out)"
  by (induction ks arbitrary: out) (auto simp: distinct_set_add split: option.splits)

lemma scan_plus_set:
  "set (scan_plus lines j out)
     = set out \<union> {p. \<exists>k. j \<le> k \<and> k < j + 6 \<and> k < length lines \<and> plus_path (lines ! k) = Some p}"
  unfolding scan_plus_def fold_plus_set
  by (auto simp: line_at_def)

lemma scan_plus_distinct: "distinct out \<Longrightarrow> distinct (scan_plus lines j out)"
  unfolding scan_plus_def by (rule fold_plus_distinct)

lemma scan_markers_find:
  "scan_markers lines js out =
     (case find (\<lambda>j. is_marker (line_at lines j)) js of
        None \<Rightarrow> out
      | Some j \<Rightarrow> scan_plus lines j out)"
  by (induction js) (auto simp: is_marker_def)

lemma find_upt_Some:
  "find P [a ..< b] = Some j \<longleftrightarrow> a \<le> j \<and> j < b \<and> P j \<and> (\<forall>m. a \<le> m \<and> m < j \<longrightarrow> \<not> P m)"
proof (induction "b - a" arbitrary: a)
  case 0
  then show ?case by auto
next
  case (Suc n)
  then have lt: "a < b" and n: "n = b - Suc a" by auto
  have upt: "[a ..< b] = a # [Suc a ..< b]"
    using lt by (simp add: upt_conv_Cons)
  show ?case
  proof (cases "P a")
    case True
    then show ?thesis
      using lt upt by auto
  next
    case False
    have "find P [a ..< b] = find P [Suc a ..< b]"
      using upt False by simp
    also have "\<dots> = Some j \<longleftrightarrow>
        Suc a \<le> j \<and> j < b \<and> P j \<and> (\<forall>m. Suc a \<le> m \<and> m < j \<longrightarrow> \<not> P m)"
      using Suc(1) [OF n] .
    also have "\<dots> \<longleftrightarrow> a \<le> j \<and> j < b \<and> P j \<and> (\<forall>m. a \<le> m \<and> m < j \<longrightarrow> \<not> P m)"
      using False by (metis Suc_leD Suc_leI le_neq_implies_less)
    finally show ?thesis .
  qed
qed

lemma find_upt_None:
  "find P [a ..< b] = None \<longleftrightarrow> (\<forall>m. a \<le> m \<and> m < b \<longrightarrow> \<not> P m)"
  by (auto simp: find_None_iff)


lemma scan_markers_set:
  assumes "i < length lines"
  shows "set (scan_markers lines [i + 1 ..< min (i + 8) (length lines)] out)
           = set out \<union> window_at lines i"
proof (cases "find (\<lambda>j. is_marker (line_at lines j)) [i + 1 ..< min (i + 8) (length lines)]")
  case None
  then have no: "\<not> is_marker (lines ! m)" if "i < m" "m < i + 8" "m < length lines" for m
    using that by (auto simp: find_upt_None line_at_def)
  have "window_at lines i = {}"
    unfolding window_at_def using no by blast
  then show ?thesis
    using None by (simp add: scan_markers_find)
next
  case (Some j)
  then have j: "i < j" "j < i + 8" "j < length lines" "is_marker (lines ! j)"
    and first: "\<forall>m. i + 1 \<le> m \<and> m < j \<longrightarrow> \<not> is_marker (line_at lines m)"
    by (auto simp: find_upt_Some line_at_def)
  have first': "\<not> is_marker (lines ! m)" if "i < m" "m < j" for m
    using first that j(3) by (auto simp: line_at_def)
  have uniq: "j' = j"
    if "i < j'" "j' < length lines" "is_marker (lines ! j')"
      "\<forall>m. i < m \<and> m < j' \<longrightarrow> \<not> is_marker (lines ! m)" for j'
    using that first' j by (metis linorder_neqE_nat)
  have "window_at lines i =
      {p. \<exists>k. j \<le> k \<and> k < j + 6 \<and> k < length lines \<and> plus_path (lines ! k) = Some p}"
    unfolding window_at_def
  proof (intro set_eqI iffI; clarify)
    fix p j' k
    assume "i < j'" "j' < i + 8" "j' < length lines" "is_marker (lines ! j')"
      "\<forall>m. i < m \<and> m < j' \<longrightarrow> \<not> is_marker (lines ! m)"
      "j' \<le> k" "k < j' + 6" "k < length lines" "plus_path (lines ! k) = Some p"
    moreover from this have "j' = j" using uniq by blast
    ultimately show "\<exists>k. j \<le> k \<and> k < j + 6 \<and> k < length lines \<and> plus_path (lines ! k) = Some p"
      by blast
  next
    fix p k
    assume "j \<le> k" "k < j + 6" "k < length lines" "plus_path (lines ! k) = Some p"
    then show "\<exists>j k. i < j \<and> j < i + 8 \<and> j < length lines \<and> is_marker (lines ! j)
            \<and> (\<forall>m. i < m \<and> m < j \<longrightarrow> \<not> is_marker (lines ! m))
            \<and> j \<le> k \<and> k < j + 6 \<and> k < length lines \<and> plus_path (lines ! k) = Some p"
      using j first' by blast
  qed
  then show ?thesis
    using Some by (simp add: scan_markers_find scan_plus_set)
qed

lemma scan_markers_distinct: "distinct out \<Longrightarrow> distinct (scan_markers lines js out)"
  by (simp add: scan_markers_find scan_plus_distinct split: option.split)

lemma scan_header_set:
  "i < length lines \<Longrightarrow>
     set (scan_header lines i out)
       = set out \<union> (if is_diff_header (lines ! i) then window_at lines i else {})"
  using scan_markers_set [of i lines out] by (simp add: scan_header_def line_at_def)

lemma scan_header_distinct: "distinct out \<Longrightarrow> distinct (scan_header lines i out)"
  by (simp add: scan_header_def scan_markers_distinct)

lemma fold_scan_header_set:
  "\<forall>i \<in> set idx. i < length lines \<Longrightarrow>
     set (fold (scan_header lines) idx out)
       = set out \<union> {p. \<exists>i \<in> set idx. is_diff_header (lines ! i) \<and> p \<in> window_at lines i}"
proof (induction idx arbitrary: out)
  case Nil
  then show ?case by simp
next
  case (Cons i idx)
  then have "set (fold (scan_header lines) idx (scan_header lines i out))
      = set (scan_header lines i out)
        \<union> {p. \<exists>i \<in> set idx. is_diff_header (lines ! i) \<and> p \<in> window_at lines i}"
    by simp
  moreover have "set (scan_header lines i out)
      = set out \<union> (if is_diff_header (lines ! i) then window_at lines i else {})"
    using Cons.prems by (simp add: scan_header_set)
  ultimately show ?case
    by auto
qed

lemma fold_scan_header_distinct:
  "distinct out \<Longrightarrow> distinct (fold (scan_header lines) idx out)"
  by (induction idx arbitrary: out) (simp_all add: scan_header_distinct)

lemma parse_set_window:
  "set (parseNewFilesFromPatch (Str t)) = window_files (split_lines t)"
proof -
  have "set (fold (scan_header (split_lines t)) [0 ..< length (split_lines t)] [])
      = {p. \<exists>i \<in> set [0 ..< length (split_lines t)].
              is_diff_header (split_lines t ! i) \<and> p \<in> window_at (split_lines t) i}"
    by (subst fold_scan_header_set) simp_all
  then show ?thesis
    by (auto simp: parseNewFilesFromPatch_def window_files_def Let_def)
qed

lemma parse_distinct: "distinct (parseNewFilesFromPatch v)"
  by (cases v) (simp_all add: parseNewFilesFromPatch_def Let_def fold_scan_header_distinct)

lemma plus_path_b: "p \<noteq> [] \<Longrightarrow> list_all is_dot_char p \<Longrightarrow> plus_path (''+++ b/'' @ p) = Some p"
  by (simp add: plus_path_def is_white_space_def code_unit_def)


section \<open>The tests of the source recognise the specification's lines\<close>

lemma is_white_space_spec: "is_white_space c = spec_white_space c"
  by (cases c) (simp add: is_white_space_def spec_white_space_def code_unit_def)

lemma is_dot_char_iff: "is_dot_char c \<longleftrightarrow> c \<noteq> CHR 0x0A \<and> c \<noteq> CHR 0x0D"
  by (cases c) (simp add: is_dot_char_def code_unit_def)

lemma dot_chars_path: "s \<noteq> [] \<and> list_all is_dot_char s \<longleftrightarrow> spec_path s"
  by (auto simp: spec_path_def list_all_iff is_dot_char_iff)

lemma after_prefix_iff: "after_prefix p s = Some r \<longleftrightarrow> s = p @ r"
  by (induction p s rule: after_prefix.induct) auto

lemma after_prefix_None_iff: "after_prefix p s = None \<longleftrightarrow> (\<forall>r. s \<noteq> p @ r)"
  using after_prefix_iff [of p s] by (cases "after_prefix p s") auto

lemma is_new_file_mode_spec: "is_new_file_mode line = spec_new_file_marker line"
  by (auto simp: is_new_file_mode_def spec_new_file_marker_def after_prefix_iff)

lemma white_run:
  assumes "list_all spec_white_space ws" and "\<not> spec_white_space c"
  shows "takeWhile is_white_space (ws @ c # r) = ws"
    and "dropWhile is_white_space (ws @ c # r) = c # r"
  using assms by (induction ws) (simp_all add: is_white_space_spec)

lemma white_split:
  "list_all spec_white_space (takeWhile is_white_space r)"
  by (induction r) (simp_all add: is_white_space_spec)

lemma is_dev_null_spec: "is_dev_null line = spec_dev_null_marker line"
proof
  assume "is_dev_null line"
  then obtain r where r: "line = ''---'' @ r" "takeWhile is_white_space r \<noteq> []"
      "dropWhile is_white_space r = ''/dev/null''"
    by (auto simp: is_dev_null_def after_prefix_iff split: option.splits)
  have "r = takeWhile is_white_space r @ ''/dev/null''"
    using takeWhile_dropWhile_id [of is_white_space r] r(3) by simp
  then have "line = ''---'' @ takeWhile is_white_space r @ ''/dev/null''"
    using r(1) by simp
  then show "spec_dev_null_marker line"
    unfolding spec_dev_null_marker_def using r(2) white_split [of r] by blast
next
  assume "spec_dev_null_marker line"
  then obtain ws where ws: "ws \<noteq> []" "list_all spec_white_space ws"
      "line = ''---'' @ ws @ ''/dev/null''"
    unfolding spec_dev_null_marker_def by blast
  have n: "\<not> spec_white_space CHR ''/''"
    by (simp add: spec_white_space_def)
  have ap: "after_prefix ''---'' line = Some (ws @ ''/dev/null'')"
    using ws(3) by (simp add: after_prefix_iff)
  have "takeWhile is_white_space (ws @ CHR ''/'' # ''dev/null'') = ws"
    and "dropWhile is_white_space (ws @ CHR ''/'' # ''dev/null'') = CHR ''/'' # ''dev/null''"
    using white_run [OF ws(2) n] by blast+
  then show "is_dev_null line"
    using ws(1) by (simp add: is_dev_null_def ap)
qed

lemma is_marker_spec: "is_marker line = spec_marker line"
  by (simp add: is_marker_def spec_marker_def is_new_file_mode_spec is_dev_null_spec)

lemma plus_path_spec: "plus_path line = Some p \<longleftrightarrow> spec_plus_line line p"
proof
  assume a: "plus_path line = Some p"
  then obtain r where r: "line = ''+++'' @ r"
    by (auto simp: plus_path_def after_prefix_iff split: option.splits)
  then have ap: "after_prefix ''+++'' line = Some r"
    by (simp add: after_prefix_iff)
  from a have tw: "takeWhile is_white_space r \<noteq> []"
    and rest: "dropWhile is_white_space r = ''b/'' @ p" and p: "p \<noteq> []" "list_all is_dot_char p"
    unfolding plus_path_def ap
    by (auto simp: after_prefix_iff split: option.splits if_splits)
  have "r = takeWhile is_white_space r @ ''b/'' @ p"
    using takeWhile_dropWhile_id [of is_white_space r] rest by simp
  then have "line = ''+++'' @ takeWhile is_white_space r @ ''b/'' @ p"
    using r by simp
  moreover have "spec_path p"
    using p dot_chars_path by blast
  ultimately show "spec_plus_line line p"
    unfolding spec_plus_line_def using tw white_split [of r] by blast
next
  assume "spec_plus_line line p"
  then obtain ws where ws: "ws \<noteq> []" "list_all spec_white_space ws" "spec_path p"
      "line = ''+++'' @ ws @ ''b/'' @ p"
    unfolding spec_plus_line_def by blast
  have n: "\<not> spec_white_space CHR ''b''"
    by (simp add: spec_white_space_def)
  have ap: "after_prefix ''+++'' line = Some (ws @ ''b/'' @ p)"
    using ws(4) by (simp add: after_prefix_iff)
  have tw: "takeWhile is_white_space (ws @ CHR ''b'' # CHR ''/'' # p) = ws"
    and dw: "dropWhile is_white_space (ws @ CHR ''b'' # CHR ''/'' # p) = CHR ''b'' # CHR ''/'' # p"
    using white_run [OF ws(2) n] by blast+
  have p: "p \<noteq> []" "list_all is_dot_char p"
    using ws(3) dot_chars_path by blast+
  show "plus_path line = Some p"
    using ws(1) p by (simp add: plus_path_def ap tw dw)
qed

lemma has_b_side_iff:
  "has_b_side r \<longleftrightarrow> (\<exists>x y. x \<noteq> [] \<and> y \<noteq> [] \<and> r = x @ '' b/'' @ y)"
proof
  show "has_b_side r \<Longrightarrow> \<exists>x y. x \<noteq> [] \<and> y \<noteq> [] \<and> r = x @ '' b/'' @ y"
  proof (induction r)
    case Nil
    then show ?case by simp
  next
    case (Cons c cs)
    show ?case
    proof (cases "\<exists>y ys. after_prefix '' b/'' cs = Some (y # ys)")
      case True
      then obtain y ys where "cs = '' b/'' @ y # ys"
        by (auto simp: after_prefix_iff)
      then have "[c] \<noteq> [] \<and> y # ys \<noteq> [] \<and> c # cs = [c] @ '' b/'' @ y # ys"
        by simp
      then show ?thesis by blast
    next
      case False
      then have "has_b_side cs"
        using Cons.prems by (auto split: option.splits list.splits)
      then obtain x y where "x \<noteq> []" "y \<noteq> []" "cs = x @ '' b/'' @ y"
        using Cons.IH by blast
      then have "c # x \<noteq> [] \<and> y \<noteq> [] \<and> c # cs = (c # x) @ '' b/'' @ y"
        by simp
      then show ?thesis by blast
    qed
  qed
next
  assume "\<exists>x y. x \<noteq> [] \<and> y \<noteq> [] \<and> r = x @ '' b/'' @ y"
  then obtain x y where x: "x \<noteq> []" and y: "y \<noteq> []" and r: "r = x @ '' b/'' @ y"
    by blast
  from x have "has_b_side (x @ '' b/'' @ y)"
  proof (induction x)
    case Nil
    then show ?case by simp
  next
    case (Cons c x)
    show ?case
    proof (cases "x = []")
      case True
      obtain y0 ys where "y = y0 # ys"
        using y by (cases y) auto
      then show ?thesis
        using True by simp
    next
      case False
      then have "has_b_side (x @ '' b/'' @ y)"
        using Cons.IH by simp
      then show ?thesis
        by (simp split: option.splits list.splits)
    qed
  qed
  then show "has_b_side r"
    using r by simp
qed

lemma is_diff_header_spec: "is_diff_header line = spec_header_line line"
proof
  assume "is_diff_header line"
  then obtain r where r: "line = ''diff --git a/'' @ r" "list_all is_dot_char r" "has_b_side r"
    by (auto simp: is_diff_header_def after_prefix_iff split: option.splits)
  then obtain x y where xy: "x \<noteq> []" "y \<noteq> []" "r = x @ '' b/'' @ y"
    using has_b_side_iff by blast
  have "spec_path x" "spec_path y"
    using r(2) xy dot_chars_path [of x] dot_chars_path [of y] by auto
  then show "spec_header_line line"
    unfolding spec_header_line_def using r(1) xy(3) by blast
next
  assume "spec_header_line line"
  then obtain x y where xy: "spec_path x" "spec_path y" "line = ''diff --git a/'' @ x @ '' b/'' @ y"
    unfolding spec_header_line_def by blast
  have ap: "after_prefix ''diff --git a/'' line = Some (x @ '' b/'' @ y)"
    using xy(3) by (simp add: after_prefix_iff)
  have ne: "x \<noteq> []" "y \<noteq> []" and dots: "list_all is_dot_char x" "list_all is_dot_char y"
    using xy(1,2) dot_chars_path by blast+
  have "has_b_side (x @ '' b/'' @ y)"
    using has_b_side_iff ne by blast
  moreover have "list_all is_dot_char (x @ '' b/'' @ y)"
    using dots by (simp add: is_dot_char_iff)
  ultimately show "is_diff_header line"
    by (simp add: is_diff_header_def ap)
qed

lemma window_at_spec: "window_at lines i = spec_added_at lines i"
  by (simp add: window_at_def spec_added_at_def is_marker_spec plus_path_spec)

lemma window_files_spec: "window_files lines = spec_extractAddedFiles lines"
  by (simp add: window_files_def spec_extractAddedFiles_def is_diff_header_spec window_at_spec)

lemma parse_set_spec:
  "set (parseNewFilesFromPatch (Str t)) = spec_extractAddedFiles (split_lines t)"
  by (simp add: parse_set_window window_files_spec)

section \<open>The scanner on patches built from file blocks\<close>

lemma map_line_at:
  "map (line_at lines) [j ..< min (j + m) (length lines)] = take m (drop j lines)"
proof (rule nth_equalityI)
  show "length (map (line_at lines) [j ..< min (j + m) (length lines)]) = length (take m (drop j lines))"
    by auto
next
  fix i
  assume "i < length (map (line_at lines) [j ..< min (j + m) (length lines)])"
  then have len: "i < length [j ..< min (j + m) (length lines)]"
    by simp
  then have i: "j + i < min (j + m) (length lines)"
    by (auto simp: min_def split: if_splits)
  have idx: "[j ..< min (j + m) (length lines)] ! i = j + i"
    using i by (rule nth_upt)
  have "map (line_at lines) [j ..< min (j + m) (length lines)] ! i
      = line_at lines ([j ..< min (j + m) (length lines)] ! i)"
    using len by (rule nth_map)
  also have "\<dots> = line_at lines (j + i)"
    by (simp only: idx)
  also have "\<dots> = lines ! (j + i)"
    using i by (simp add: line_at_def)
  also have "\<dots> = take m (drop j lines) ! i"
    using i by simp
  finally show "map (line_at lines) [j ..< min (j + m) (length lines)] ! i = take m (drop j lines) ! i" .
qed

lemma scan_plus_suffix: "scan_plus lines j out = fold plus_step (take 6 (drop j lines)) out"
proof -
  have "(\<lambda>k out. case plus_path (line_at lines k) of Some p \<Rightarrow> set_add p out | None \<Rightarrow> out)
      = plus_step \<circ> line_at lines"
    by (simp add: fun_eq_iff plus_step_def)
  then have "scan_plus lines j out
      = fold (plus_step \<circ> line_at lines) [j ..< min (j + 6) (length lines)] out"
    by (simp add: scan_plus_def)
  also have "\<dots> = fold plus_step (map (line_at lines) [j ..< min (j + 6) (length lines)]) out"
    by (simp add: fold_map)
  finally show ?thesis
    by (simp only: map_line_at)
qed

lemma scan_markers_suffix:
  "scan_markers lines [a ..< min (a + m) (length lines)] out
     = fold plus_step (marker_window (drop a lines) m) out"
proof (induction m arbitrary: a)
  case 0
  show ?case by (cases "drop a lines") simp_all
next
  case (Suc m)
  show ?case
  proof (cases "a < length lines")
    case False
    then show ?thesis by simp
  next
    case True
    then have upt: "[a ..< min (a + Suc m) (length lines)]
        = a # [Suc a ..< min (Suc a + m) (length lines)]"
      by (simp add: upt_conv_Cons)
    have dr: "drop a lines = lines ! a # drop (Suc a) lines"
      using True by (simp add: Cons_nth_drop_Suc)
    have la: "line_at lines a = lines ! a"
      using True by (simp add: line_at_def)
    show ?thesis
      unfolding upt dr
      using Suc [of "Suc a"] scan_plus_suffix [of lines a out] dr
      by (simp add: la is_marker_def)
  qed
qed

lemma scan_header_suffix:
  assumes "i < length lines"
  shows "scan_header lines i out = suffix_step (drop i lines) out"
proof -
  have dr: "drop i lines = lines ! i # drop (Suc i) lines"
    using assms by (simp add: Cons_nth_drop_Suc)
  have e: "i + 1 + 7 = i + 8"
    by simp
  have "scan_markers lines [i + 1 ..< min (i + 8) (length lines)] out
      = fold plus_step (marker_window (drop (i + 1) lines) 7) out"
    using scan_markers_suffix [of lines "i + 1" 7 out] unfolding e .
  then show ?thesis
    unfolding dr using assms by (simp add: scan_header_def line_at_def)
qed

lemma fold_scan_header_suffix:
  "a \<le> length lines \<Longrightarrow>
     fold (scan_header lines) [a ..< length lines] out = scan_all (drop a lines) out"
proof (induction "length lines - a" arbitrary: a out)
  case 0
  then show ?case by simp
next
  case (Suc n)
  then have lt: "a < length lines" by simp
  have upt: "[a ..< length lines] = a # [Suc a ..< length lines]"
    using lt by (simp add: upt_conv_Cons)
  have dr: "drop a lines = lines ! a # drop (Suc a) lines"
    using lt by (simp add: Cons_nth_drop_Suc)
  have "fold (scan_header lines) [Suc a ..< length lines] (scan_header lines a out)
      = scan_all (drop (Suc a) lines) (scan_header lines a out)"
    using Suc(1) [of "Suc a"] Suc(2) lt by simp
  then show ?case
    unfolding upt using scan_header_suffix [OF lt, of out] dr by simp
qed

lemma parse_scan_all: "parseNewFilesFromPatch (Str t) = scan_all (split_lines t) []"
  using fold_scan_header_suffix [of 0 "split_lines t" "[]"]
  by (simp add: parseNewFilesFromPatch_def Let_def)

lemma scan_all_skip:
  "\<forall>l \<in> set xs. \<not> is_diff_header l \<Longrightarrow> scan_all (xs @ rest) out = scan_all rest out"
  by (induction xs arbitrary: out) simp_all

lemma not_header_first:
  "line \<noteq> [] \<Longrightarrow> hd line \<noteq> CHR ''d'' \<Longrightarrow> \<not> is_diff_header line"
  by (cases line) (simp_all add: is_diff_header_def)

lemma not_plus_line: "take 3 line \<noteq> ''+++'' \<Longrightarrow> plus_path line = None"
  by (auto simp: plus_path_def after_prefix_iff split: option.splits)

lemma plus_step_none: "take 3 line \<noteq> ''+++'' \<Longrightarrow> plus_step line out = out"
  by (simp add: plus_step_def not_plus_line)

lemma scan_all_block:
  assumes wf: "wf_block b"
    and rest: "rest = [] \<or> take 3 (hd rest) \<noteq> ''+++''"
  shows "scan_all (block_lines b @ rest) out = scan_all rest (set_add (fst b) out)"
proof -
  obtain p body where b: "b = (p, body)" by (cases b)
  let ?hdr = "''diff --git a/'' @ p @ '' b/'' @ p"
  let ?plus = "''+++ b/'' @ p"
  let ?body = "map (\<lambda>l. CHR ''+'' # l) body"
  let ?tail = "?body @ rest"
  have p: "spec_path p"
    using wf b by (simp add: wf_block_def)
  have hdr: "is_diff_header ?hdr"
    unfolding is_diff_header_spec spec_header_line_def using p by blast
  have plus: "plus_path ?plus = Some p"
    using p dot_chars_path [of p] plus_path_b [of p] by blast
  have sixth: "fold plus_step (take 1 ?tail) acc = acc" for acc
  proof (cases body)
    case Nil
    then show ?thesis
      using rest by (cases rest) (simp_all add: plus_step_none)
  next
    case (Cons l ls)
    then have "take 2 l \<noteq> ''++''"
      using wf b by (simp add: wf_block_def)
    then have "take 3 (CHR ''+'' # l) \<noteq> ''+++''"
      by simp
    then show ?thesis
      using Cons by (simp add: plus_step_none)
  qed
  have mw: "marker_window (''new file mode 100644'' # ''index 0000000..1111111'' # ''--- /dev/null''
        # ?plus # ''@@ -0,0 +1 @@'' # ?tail) 7
      = [''new file mode 100644'', ''index 0000000..1111111'', ''--- /dev/null'', ?plus,
         ''@@ -0,0 +1 @@''] @ take 1 ?tail"
    by (simp add: eval_nat_numeral is_marker_def is_new_file_mode_def)
  have win: "fold plus_step ([''new file mode 100644'', ''index 0000000..1111111'',
        ''--- /dev/null'', ?plus, ''@@ -0,0 +1 @@''] @ take 1 ?tail) out = set_add p out"
    unfolding fold_append comp_def sixth
    using plus by (simp add: plus_step_def plus_path_def)
  have step: "suffix_step (?hdr # ''new file mode 100644'' # ''index 0000000..1111111''
        # ''--- /dev/null'' # ?plus # ''@@ -0,0 +1 @@'' # ?tail) out = set_add p out"
    using hdr mw win by (simp only: suffix_step.simps if_True)
  have nh: "\<forall>l \<in> set ([''new file mode 100644'', ''index 0000000..1111111'', ''--- /dev/null'',
        ?plus, ''@@ -0,0 +1 @@''] @ ?body). \<not> is_diff_header l"
    by (auto simp: is_diff_header_def)
  have "scan_all (block_lines b @ rest) out
      = scan_all ([''new file mode 100644'', ''index 0000000..1111111'', ''--- /dev/null'',
          ?plus, ''@@ -0,0 +1 @@''] @ ?body @ rest) (set_add p out)"
    using step by (simp add: block_lines_def b)
  also have "\<dots> = scan_all rest (set_add p out)"
    using scan_all_skip [OF nh, of rest "set_add p out"] by simp
  finally show ?thesis
    by (simp add: b)
qed

lemma block_lines_head: "take 3 (hd (block_lines b @ rest)) \<noteq> ''+++''"
  by (simp add: block_lines_def)

lemma scan_all_blocks:
  "list_all wf_block bs \<Longrightarrow>
     scan_all (concat (map block_lines bs) @ [[]]) out = fold set_add (map fst bs) out"
proof (induction bs arbitrary: out)
  case Nil
  then show ?case by simp
next
  case (Cons b bs)
  have "concat (map block_lines bs) @ [[]] = []
      \<or> take 3 (hd (concat (map block_lines bs) @ [[]])) \<noteq> ''+++''"
    by (cases bs) (simp_all add: block_lines_head)
  then have "scan_all (block_lines b @ concat (map block_lines bs) @ [[]]) out
      = scan_all (concat (map block_lines bs) @ [[]]) (set_add (fst b) out)"
    using Cons.prems by (intro scan_all_block) simp_all
  then show ?case
    using Cons by simp
qed

lemma split_lines_line:
  "CHR 0x0A \<notin> set l \<Longrightarrow> split_lines (l @ CHR 0x0A # t) = l # split_lines t"
  by (induction l) auto

lemma split_lines_unlines:
  "\<forall>l \<in> set ls. CHR 0x0A \<notin> set l \<Longrightarrow>
     split_lines (concat (map (\<lambda>l. l @ nl) ls)) = ls @ [[]]"
  by (induction ls) (simp_all add: nl_def split_lines_line)

lemma block_lines_no_nl: "wf_block b \<Longrightarrow> \<forall>l \<in> set (block_lines b). CHR 0x0A \<notin> set l"
  by (auto simp: wf_block_def block_lines_def spec_path_def list_all_iff)

lemma parse_git_patch:
  assumes "list_all wf_block bs"
  shows "parseNewFilesFromPatch (Str (git_patch bs)) = fold set_add (map fst bs) []"
proof -
  have "\<forall>l \<in> set (concat (map block_lines bs)). CHR 0x0A \<notin> set l"
    using assms block_lines_no_nl by (auto simp: list_all_iff)
  then have "split_lines (git_patch bs) = concat (map block_lines bs) @ [[]]"
    unfolding git_patch_def by (rule split_lines_unlines)
  then show ?thesis
    using assms by (simp add: parse_scan_all scan_all_blocks)
qed

lemma set_fold_set_add: "set (fold set_add ps out) = set out \<union> set ps"
  by (induction ps arbitrary: out) (auto simp: set_set_add)




section \<open>The scanner's contract\<close>

text \<open>
  Claim C3. For the text of a unified diff, the scanner returns exactly the paths that the
  specification's windows describe: a header line \<^verbatim>\<open>diff --git a/<old> b/<new>\<close>, behind it
  within the look-ahead a "new file mode" or "--- /dev/null" marker, and from that marker
  on within the further window a line \<^verbatim>\<open>+++ b/<path>\<close>, whose path is taken without the
  "b/". The result has no duplicates. A patch built from the blocks git prints for new
  files with content gives exactly the paths of its blocks, in their order; the diff that
  adds exactly "new_enhanced.py" and "normal.py" gives exactly these two paths. Either
  marker alone announces a new file, and a modified file, which has neither, is not
  returned.
\<close>
theorem scanner_returns_window_paths:
  "set (parseNewFilesFromPatch (Str t)) = spec_extractAddedFiles (split_lines t)
   \<and> distinct (parseNewFilesFromPatch (Str t))
   \<and> (p \<noteq> [] \<and> list_all is_dot_char p \<longrightarrow> plus_path (''+++ b/'' @ p) = Some p)
   \<and> (list_all wf_block bs \<longrightarrow>
        parseNewFilesFromPatch (Str (git_patch bs)) = fold set_add (map fst bs) []
        \<and> set (parseNewFilesFromPatch (Str (git_patch bs))) = fst ` set bs)
   \<and> parseNewFilesFromPatch (Str (block_new_enhanced @ block_normal))
       = [''new_enhanced.py'', ''normal.py'']
   \<and> parseNewFilesFromPatch (Str patch_mode_only) = [''report_backup.py'']
   \<and> parseNewFilesFromPatch (Str patch_dev_null_only) = [''report_backup.py'']
   \<and> parseNewFilesFromPatch (Str patch_modified_only) = []"
proof -
  have 1: "parseNewFilesFromPatch (Str (block_new_enhanced @ block_normal))
      = [''new_enhanced.py'', ''normal.py'']"
    by code_simp
  have 2: "parseNewFilesFromPatch (Str patch_mode_only) = [''report_backup.py'']"
    by code_simp
  have 3: "parseNewFilesFromPatch (Str patch_dev_null_only) = [''report_backup.py'']"
    by code_simp
  have 4: "parseNewFilesFromPatch (Str patch_modified_only) = []"
    by code_simp
  have 5: "parseNewFilesFromPatch (Str (git_patch bs)) = fold set_add (map fst bs) []
        \<and> set (parseNewFilesFromPatch (Str (git_patch bs))) = fst ` set bs"
    if "list_all wf_block bs"
    using parse_git_patch [OF that] by (simp add: set_fold_set_add)
  show ?thesis
    using 1 2 3 4 5 parse_set_spec [of t] parse_distinct [of "Str t"] plus_path_b [of p] by blast
qed

theorem scanner_returns_window_paths_witness:
  "''normal.py'' \<in> set (parseNewFilesFromPatch (Str (block_new_enhanced @ block_normal)))
   \<and> plus_path ''+++ b/normal.py'' = Some ''normal.py''
   \<and> parseNewFilesFromPatch
        (Str (git_patch [(''new_enhanced.py'', [''print(1)'']), (''normal.py'', [''x = 1''])]))
      = [''new_enhanced.py'', ''normal.py'']"
proof -
  let ?ls = "split_lines (block_new_enhanced @ block_normal)"
  let ?bs = "[(''new_enhanced.py'', [''print(1)'']), (''normal.py'', [''x = 1''])]"
  note t = scanner_returns_window_paths [of "block_new_enhanced @ block_normal" "''normal.py''" ?bs]
  have len: "length ?ls = 15" by code_simp
  have "is_diff_header (?ls ! 7)" by code_simp
  then have h: "spec_header_line (?ls ! 7)"
    by (simp only: is_diff_header_spec)
  have "is_marker (?ls ! 8)" by code_simp
  then have m: "spec_marker (?ls ! 8)"
    by (simp only: is_marker_spec)
  have "plus_path (?ls ! 11) = Some ''normal.py''" by code_simp
  then have p: "spec_plus_line (?ls ! 11) ''normal.py''"
    by (simp only: plus_path_spec)
  have first: "\<forall>m. (7::nat) < m \<and> m < 8 \<longrightarrow> \<not> spec_marker (?ls ! m)" by auto
  have "''normal.py'' \<in> spec_added_at ?ls 7"
    unfolding spec_added_at_def using len m p first
    by (intro CollectI exI [of _ 8] exI [of _ 11]) simp
  then have "''normal.py'' \<in> spec_extractAddedFiles ?ls"
    unfolding spec_extractAddedFiles_def using len h
    by (intro CollectI exI [of _ 7]) simp
  with t have 1: "''normal.py'' \<in> set (parseNewFilesFromPatch (Str (block_new_enhanced @ block_normal)))"
    by blast
  have d: "''normal.py'' \<noteq> [] \<and> list_all is_dot_char ''normal.py''"
    by (simp add: is_dot_char_def code_unit_def)
  from t d have 2: "plus_path ''+++ b/normal.py'' = Some ''normal.py''"
    by simp
  have wf: "list_all wf_block ?bs"
    by (simp add: wf_block_def spec_path_def)
  from t wf have "parseNewFilesFromPatch (Str (git_patch ?bs)) = fold set_add (map fst ?bs) []"
    by blast
  then have 3: "parseNewFilesFromPatch (Str (git_patch ?bs)) = [''new_enhanced.py'', ''normal.py'']"
    by (simp add: set_add_def)
  from 1 2 3 show ?thesis by blast
qed

lemma window_from_lines:
  "window_files lines \<subseteq> {p. \<exists>l \<in> set lines. plus_path l = Some p}"
  unfolding window_files_def window_at_def
  by (auto intro: nth_mem)

lemma window_needs_header:
  "\<forall>l \<in> set lines. \<not> is_diff_header l \<Longrightarrow> window_files lines = {}"
  unfolding window_files_def by auto

text \<open>
  Claim C7. The scanner is a total function with no failing branch. For an argument that is
  not a string it returns the empty set. For a string it returns a set that is empty when no
  line is a per-file header, and that in every case holds only paths read from
  \<^verbatim>\<open>+++ b/<path>\<close> lines of the text, so at most one per line.
\<close>
theorem scanner_never_fails:
  "(\<not> is_string v \<longrightarrow> parseNewFilesFromPatch v = [])
   \<and> ((\<forall>l \<in> set (split_lines t). \<not> is_diff_header l) \<longrightarrow> parseNewFilesFromPatch (Str t) = [])
   \<and> set (parseNewFilesFromPatch (Str t)) \<subseteq> {p. \<exists>l \<in> set (split_lines t). plus_path l = Some p}
   \<and> length (parseNewFilesFromPatch (Str t)) \<le> length (split_lines t)"
proof -
  have 1: "\<not> is_string v \<longrightarrow> parseNewFilesFromPatch v = []"
    by (simp add: parse_not_string)
  have 2: "(\<forall>l \<in> set (split_lines t). \<not> is_diff_header l) \<longrightarrow> parseNewFilesFromPatch (Str t) = []"
    using parse_set_window [of t] window_needs_header [of "split_lines t"] by auto
  have 3: "set (parseNewFilesFromPatch (Str t)) \<subseteq> {p. \<exists>l \<in> set (split_lines t). plus_path l = Some p}"
    using parse_set_window [of t] window_from_lines [of "split_lines t"] by simp
  have "{p. \<exists>l \<in> set (split_lines t). plus_path l = Some p}
      \<subseteq> (\<lambda>l. the (plus_path l)) ` set (split_lines t)"
    by force
  with 3 have "set (parseNewFilesFromPatch (Str t)) \<subseteq> (\<lambda>l. the (plus_path l)) ` set (split_lines t)"
    by blast
  then have "card (set (parseNewFilesFromPatch (Str t))) \<le> card ((\<lambda>l. the (plus_path l)) ` set (split_lines t))"
    by (intro card_mono) simp_all
  also have "\<dots> \<le> card (set (split_lines t))"
    by (rule card_image_le) simp
  also have "\<dots> \<le> length (split_lines t)"
    by (rule card_length)
  finally have 4: "length (parseNewFilesFromPatch (Str t)) \<le> length (split_lines t)"
    using parse_distinct [of "Str t"] by (simp add: distinct_card)
  from 1 2 3 4 show ?thesis by blast
qed

theorem scanner_never_fails_witness:
  "parseNewFilesFromPatch (Num 42) = []
   \<and> parseNewFilesFromPatch Undefined = []
   \<and> parseNewFilesFromPatch (Str ''+++ b/old_copy.py'') = []"
proof -
  note t1 = scanner_never_fails [of "Num 42" "''+++ b/old_copy.py''"]
  note t2 = scanner_never_fails [of Undefined "''+++ b/old_copy.py''"]
  have s: "\<not> is_string (Num 42) \<and> \<not> is_string Undefined"
    by (simp add: is_string_def)
  have l: "\<forall>l \<in> set (split_lines ''+++ b/old_copy.py''). \<not> is_diff_header l"
    by (simp add: is_diff_header_def)
  from t1 s have 1: "parseNewFilesFromPatch (Num 42) = []" by blast
  from t2 s have 2: "parseNewFilesFromPatch Undefined = []" by blast
  from t1 l have 3: "parseNewFilesFromPatch (Str ''+++ b/old_copy.py'') = []" by blast
  from 1 2 3 show ?thesis by blast
qed

section \<open>The hook: patches\<close>




end
